theory Spec2Isabelle
  imports Main "HOL-Library.Sublist"
begin

section \<open>Wildcard name matching (views/ros.js, RosStaticGraph)\<close>

text \<open>
  A resource name is split on the slash into its segments before it is matched:
  \<^verbatim>\<open>model.get("name").split("/")\<close>. The string method keeps empty segments, so
  the name \<^verbatim>\<open>/ns/a\<close> has the three segments \<^verbatim>\<open>""\<close>, \<^verbatim>\<open>"ns"\<close> and \<^verbatim>\<open>"a"\<close>, and the empty
  string has the single segment \<^verbatim>\<open>""\<close>.
\<close>

fun split :: "string \<Rightarrow> char \<Rightarrow> string list" where
  "split [] sep = [[]]"
| "split (c # cs) sep =
     (if c = sep then [] # split cs sep
      else (case split cs sep of [] \<Rightarrow> [[c]] | seg # rest \<Rightarrow> (c # seg) # rest))"

text \<open>
  Reading \<^verbatim>\<open>a[i]\<close>: an index outside the array yields \<^verbatim>\<open>undefined\<close>, which is
  \<open>None\<close> here. It is never equal to a segment and it is equal to itself.
\<close>

definition segment :: "string list \<Rightarrow> int \<Rightarrow> string option" where
  "segment a i = (if 0 \<le> i \<and> i < int (length a) then Some (a ! nat i) else None)"

text \<open>
  \<^verbatim>\<open>_nameMatch(a1, k1, a2, k2)\<close>. The outer loop advances both indices by one, so
  one round of it is the call at \<open>(i + 1, j + 1)\<close>. Each inner loop returns at the first
  index whose recursive call succeeds and returns false when there is none, which is
  \<open>list_ex\<close> over the indices \<open>j, \<dots>, len2 - 1\<close> (respectively \<open>i, \<dots>, len1 - 1\<close>)
  in increasing order. The indices are integers and \<open>i + 1\<close> is the exact successor,
  which is what the source computes for an index between \<open>- 2 ^ 53\<close> and \<open>2 ^ 53\<close>; every
  index of a call that starts inside the two arrays is one. The arithmetic of the source
  outside that range is in \<open>nameMatchNum\<close> below.
\<close>

function nameMatch :: "string list \<Rightarrow> int \<Rightarrow> string list \<Rightarrow> int \<Rightarrow> bool" where
  "nameMatch a1 i a2 j =
     (if i < int (length a1) \<and> j < int (length a2) then
        if segment a1 i = Some ''?'' then
          if i = int (length a1) - 1 then True
          else list_ex (\<lambda>k. nameMatch a1 (i + 1) a2 k) [j..int (length a2) - 1]
        else if segment a2 j = Some ''?'' then
          if j = int (length a2) - 1 then True
          else list_ex (\<lambda>k. nameMatch a1 k a2 (j + 1)) [i..int (length a1) - 1]
        else if segment a1 i \<noteq> segment a2 j then False
        else nameMatch a1 (i + 1) a2 (j + 1)
      else i = int (length a1) \<and> j = int (length a2))"
  by pat_completeness auto
termination
  by (relation "measure (\<lambda>(a1, i, a2, j).
        nat (int (length a1) - i) + nat (int (length a2) - j))") auto

declare nameMatch.simps [simp del]

text \<open>
  The call made by \<^verbatim>\<open>_connectUnknown\<close> for two resource names, which is also what
  each line \<^verbatim>\<open>test(name1, name2, expected)\<close> of the comment above \<^verbatim>\<open>_nameMatch\<close>
  exercises: both names split on the slash, both start indices 0.
\<close>

definition namesMatch :: "string \<Rightarrow> string \<Rightarrow> bool" where
  "namesMatch name1 name2 =
     nameMatch (split name1 CHR ''/'') 0 (split name2 CHR ''/'') 0"

text \<open>
  The number of segments that are still ahead of the two indices, summed over both
  names: \<open>(len1 - k1) + (len2 - k2)\<close>, each difference counted as 0 when the index is
  past the end.
\<close>

definition remaining :: "string list \<times> int \<times> string list \<times> int \<Rightarrow> nat" where
  "remaining = (\<lambda>(a1, k1, a2, k2).
     nat (int (length a1) - k1) + nat (int (length a2) - k2))"

text \<open>
  The numbers of the source are IEEE 754 doubles. Every integer of magnitude up to
  \<open>2 ^ 53\<close> is a number; beyond that the integers that are numbers are those with a
  significand of 53 binary digits, the multiples of \<open>2 ^ (b - 53)\<close> among the integers of
  \<open>b\<close> binary digits. The result \<open>x\<close> of an operation on integers is rounded to the nearest
  number, a tie going to the one with an even significand (for \<open>x\<close> in the range of the
  finite numbers, of magnitude below \<open>2 ^ 1024\<close>).
\<close>

function bitLength :: "int \<Rightarrow> nat" where
  "bitLength n = (if n \<le> 0 then 0 else Suc (bitLength (n div 2)))"
  by pat_completeness auto
termination
  by (relation "measure nat") auto

declare bitLength.simps [simp del]

definition nearestDouble :: "int \<Rightarrow> int" where
  "nearestDouble x =
     (if \<bar>x\<bar> \<le> 2 ^ 53 then x
      else
        let u = 2 ^ (bitLength \<bar>x\<bar> - 53);
            m = \<bar>x\<bar> div u;
            r = \<bar>x\<bar> mod u
        in sgn x * u * (if 2 * r < u \<or> (2 * r = u \<and> even m) then m else m + 1))"

text \<open>
  The operations \<^verbatim>\<open>++i\<close>, \<^verbatim>\<open>++j\<close>, \<^verbatim>\<open>++k\<close>, \<^verbatim>\<open>i + 1\<close> and \<^verbatim>\<open>j + 1\<close> on a number that
  holds the integer \<open>i\<close>.
\<close>

definition increment :: "int \<Rightarrow> int" where
  "increment i = nearestDouble (i + 1)"

text \<open>
  \<^verbatim>\<open>_nameMatch(a1, k1, a2, k2)\<close> with the arithmetic of the source in place of exact
  integers. An increment can leave an index where it was, so a loop need not end: the
  first argument is the fuel, the number of nested calls and loop rounds that may still
  be made, and \<open>None\<close> is the answer when it has run out. \<open>nameMatchNum\<close> is the function
  from the test of its outer loop on, one round of that loop being the call at the
  incremented indices. \<open>scanSecond\<close> is the inner loop
  \<^verbatim>\<open>for (k = j; k < len2; ++k) if (this._nameMatch(a1, i + 1, a2, k)) return true;\<close>
  from the test of \<open>k\<close> on, followed by \<^verbatim>\<open>return false\<close>, where \<open>i1\<close> is the value of
  \<^verbatim>\<open>i + 1\<close>; \<open>scanFirst\<close> is the inner loop
  \<^verbatim>\<open>for (k = i; k < len1; ++k) if (this._nameMatch(a1, k, a2, j + 1)) return true;\<close>
  in the same way, where \<open>j1\<close> is the value of \<^verbatim>\<open>j + 1\<close>.
\<close>

function nameMatchNum :: "nat \<Rightarrow> string list \<Rightarrow> int \<Rightarrow> string list \<Rightarrow> int \<Rightarrow> bool option"
  and scanSecond :: "nat \<Rightarrow> string list \<Rightarrow> int \<Rightarrow> string list \<Rightarrow> int \<Rightarrow> bool option"
  and scanFirst :: "nat \<Rightarrow> string list \<Rightarrow> int \<Rightarrow> string list \<Rightarrow> int \<Rightarrow> bool option"
where
  "nameMatchNum 0 a1 i a2 j = None"
| "nameMatchNum (Suc n) a1 i a2 j =
     (if i < int (length a1) \<and> j < int (length a2) then
        if segment a1 i = Some ''?'' then
          if i = int (length a1) - 1 then Some True
          else scanSecond n a1 (increment i) a2 j
        else if segment a2 j = Some ''?'' then
          if j = int (length a2) - 1 then Some True
          else scanFirst n a1 i a2 (increment j)
        else if segment a1 i \<noteq> segment a2 j then Some False
        else nameMatchNum n a1 (increment i) a2 (increment j)
      else Some (i = int (length a1) \<and> j = int (length a2)))"
| "scanSecond 0 a1 i1 a2 k = None"
| "scanSecond (Suc n) a1 i1 a2 k =
     (if k < int (length a2) then
        (case nameMatchNum n a1 i1 a2 k of
           None \<Rightarrow> None
         | Some True \<Rightarrow> Some True
         | Some False \<Rightarrow> scanSecond n a1 i1 a2 (increment k))
      else Some False)"
| "scanFirst 0 a1 k a2 j1 = None"
| "scanFirst (Suc n) a1 k a2 j1 =
     (if k < int (length a1) then
        (case nameMatchNum n a1 k a2 j1 of
           None \<Rightarrow> None
         | Some True \<Rightarrow> Some True
         | Some False \<Rightarrow> scanFirst n a1 (increment k) a2 j1)
      else Some False)"
  by pat_completeness
    (simp_all only: sum.inject sum.distinct prod.inject nat.inject nat.distinct simp_thms)
termination
  by (relation "measure (\<lambda>c. case c of
        Inl (n, _) \<Rightarrow> n | Inr (Inl (n, _)) \<Rightarrow> n | Inr (Inr (n, _)) \<Rightarrow> n)") simp_all

text \<open>
  A second reading of the inner wildcard, which follows the words "an inner ? matches one
  or more segments of the other name" and not the source: the \<^verbatim>\<open>?\<close> at \<open>a1[i]\<close> stands for
  the segments \<open>a2[j], \<dots>, a2[k - 1]\<close> with \<open>j < k\<close>, and what follows it in \<open>a1\<close> is matched
  from \<open>a2[k]\<close> on.
\<close>

definition wildcard_takes_one_or_more ::
    "string list \<Rightarrow> int \<Rightarrow> string list \<Rightarrow> int \<Rightarrow> bool" where
  "wildcard_takes_one_or_more a1 i a2 j =
     list_ex (\<lambda>k. nameMatch a1 (i + 1) a2 k) [j + 1..int (length a2)]"


section \<open>The request body for the computation graph (views/ros.js, RosSystemView)\<close>

text \<open>
  The tri-state \<^verbatim>\<open>selected\<close> field of a feature: true, false or unknown, where unknown is
  \<^verbatim>\<open>null\<close> or a missing field (\<^verbatim>\<open>undefined\<close>). The code tests it in three ways:
  by truthiness (\<^verbatim>\<open>if (d.selected)\<close>), by \<^verbatim>\<open>d.selected == null\<close>, which holds for
  \<^verbatim>\<open>null\<close> and for \<^verbatim>\<open>undefined\<close>, and by strict (in)equality.
\<close>

datatype tri = TTrue | TFalse | TNull | TUndefined

fun truthy :: "tri \<Rightarrow> bool" where
  "truthy TTrue = True"
| "truthy TFalse = False"
| "truthy TNull = False"
| "truthy TUndefined = False"

fun nullish :: "tri \<Rightarrow> bool" where
  "nullish TNull = True"
| "nullish TUndefined = True"
| "nullish TTrue = False"
| "nullish TFalse = False"

text \<open>What an entry of the \<^verbatim>\<open>args\<close> object can hold.\<close>

datatype jsval = JUndefined | JNull | JString string

text \<open>
  A node of the feature model as \<^verbatim>\<open>cgRequestData\<close> reads it: launch files, their args
  and the values of an arg are objects of the same shape, with the fields \<^verbatim>\<open>name\<close>,
  \<^verbatim>\<open>selected\<close>, \<^verbatim>\<open>resolved\<close> (read by truthiness), \<^verbatim>\<open>value\<close> and the array \<^verbatim>\<open>children\<close>.
\<close>

datatype feature =
  Feature (name: string) (selected: tri) (resolved: bool) (val: jsval)
    (children: "feature list")

record feature_model =
  fm_id :: string
  fm_children :: "feature list"

text \<open>
  The object \<^verbatim>\<open>args\<close>, created as \<^verbatim>\<open>{}\<close>: its own properties, and whether its prototype
  has been set to \<^verbatim>\<open>null\<close>. A new object has no own property and the prototype
  \<^verbatim>\<open>Object.prototype\<close>.
\<close>

record js_object =
  own_props :: "string \<rightharpoonup> jsval"
  proto_null :: bool

definition emptyObject :: js_object where
  "emptyObject = \<lparr>own_props = Map.empty, proto_null = False\<rparr>"

text \<open>
  The assignment \<^verbatim>\<open>obj[key] = v\<close>. It sets the own property \<^verbatim>\<open>key\<close>, creating it when the
  object does not have it, unless the object inherits a setter for the key. The one
  accessor property of \<^verbatim>\<open>Object.prototype\<close> is \<^verbatim>\<open>__proto__\<close>: as long as the object has
  no own property of that name and still has \<^verbatim>\<open>Object.prototype\<close> as its prototype, the
  assignment to \<^verbatim>\<open>__proto__\<close> calls that setter, which creates no property; it sets the
  prototype to \<^verbatim>\<open>null\<close> when the value is \<^verbatim>\<open>null\<close> and does nothing when the value is
  \<^verbatim>\<open>undefined\<close> or a string.
\<close>

definition assign :: "string \<Rightarrow> jsval \<Rightarrow> js_object \<Rightarrow> js_object" where
  "assign key v obj =
     (if key = ''__proto__'' \<and> own_props obj key = None \<and> \<not> proto_null obj then
        (if v = JNull then obj\<lparr>proto_null := True\<rparr> else obj)
      else obj\<lparr>own_props := (own_props obj)(key \<mapsto> v)\<rparr>)"

record cg_request =
  project :: string
  launch :: "(string \<times> js_object) list"
  discard :: "string list"

text \<open>
  The loop over the values \<^verbatim>\<open>d3\<close> of an arg, started with \<^verbatim>\<open>value = null\<close>: it stops at
  the first value whose \<^verbatim>\<open>selected\<close> is truthy. The calls of \<^verbatim>\<open>console.assert\<close> only log
  and are left out.
\<close>

fun selectedValue :: "feature list \<Rightarrow> jsval" where
  "selectedValue [] = JNull"
| "selectedValue (d3 # ds) =
     (if truthy (selected d3) then (if resolved d3 then JString (name d3) else val d3)
      else selectedValue ds)"

definition argValue :: "feature \<Rightarrow> jsval" where
  "argValue d2 = (if truthy (selected d2) then selectedValue (children d2) else JNull)"

text \<open>
  The loop over the args \<^verbatim>\<open>d2\<close> of a launch file, with the assignment
  \<^verbatim>\<open>args[d2.name] = value\<close> on the object \<^verbatim>\<open>args\<close>.
\<close>

fun argsObject :: "feature list \<Rightarrow> js_object \<Rightarrow> js_object" where
  "argsObject [] args = args"
| "argsObject (d2 # ds) args = argsObject ds (assign (name d2) (argValue d2) args)"

text \<open>The loop over the launch files \<^verbatim>\<open>d1\<close>.\<close>

fun launchFiles :: "feature list \<Rightarrow> cg_request \<Rightarrow> cg_request" where
  "launchFiles [] data = data"
| "launchFiles (d1 # ds) data =
     (if nullish (selected d1) then launchFiles ds data
      else if truthy (selected d1) then
        launchFiles ds
          (data\<lparr>launch := launch data @ [(name d1, argsObject (children d1) emptyObject)]\<rparr>)
      else launchFiles ds (data\<lparr>discard := discard data @ [name d1]\<rparr>))"

definition cgRequestData :: "feature_model \<Rightarrow> cg_request" where
  "cgRequestData fm =
     launchFiles (fm_children fm) \<lparr>project = fm_id fm, launch = [], discard = []\<rparr>"

text \<open>
  The value that the words of the specification give to an arg: the name of its first
  value child with \<^verbatim>\<open>selected\<close> true if that value is resolved, the \<^verbatim>\<open>value\<close> field of that
  child if it is unresolved, and \<^verbatim>\<open>null\<close> when the arg is not selected (or has no selected
  value).
\<close>

definition specified_arg_value :: "feature \<Rightarrow> jsval" where
  "specified_arg_value d2 =
     (if selected d2 = TTrue then
        (case find (\<lambda>d3. selected d3 = TTrue) (children d2) of
           None \<Rightarrow> JNull
         | Some d3 \<Rightarrow> if resolved d3 then JString (name d3) else val d3)
      else JNull)"


section \<open>The feature tree (views/collapsible-tree.js, the version with launch files, args and values)\<close>

text \<open>
  A node of the tree has a numeric \<^verbatim>\<open>id\<close>, the feature \<^verbatim>\<open>data\<close> and the state \<^verbatim>\<open>ui\<close> of
  its label. The fields below are the ones that the selection handlers read or write:
  \<^verbatim>\<open>d.id\<close>, \<^verbatim>\<open>d.data.selected\<close>, \<^verbatim>\<open>d.ui.selected\<close> and \<^verbatim>\<open>d.ui.name\<close> on every node;
  \<^verbatim>\<open>d.data.resolved\<close> (read by truthiness) and \<^verbatim>\<open>d.ui.value\<close> (\<open>None\<close> is \<^verbatim>\<open>null\<close> or
  \<^verbatim>\<open>undefined\<close>) on a value; \<^verbatim>\<open>d.data.defaultValue\<close> and \<^verbatim>\<open>d.ui.previousValue\<close> on an arg.
  The children of a node are \<^verbatim>\<open>d.children || d._children\<close>, the same list whether the
  node is collapsed or not; the tree layout leaves both fields unset on a node without
  children, which is the empty list here.
\<close>

record node =
  nid :: nat
  data_selected :: tri
  ui_selected :: tri
  ui_name :: string

record value_node = node +
  data_resolved :: bool
  ui_value :: "string option"

record arg_node = node +
  data_defaultValue :: "int option"
  ui_previousValue :: "nat option"
  arg_children :: "value_node list"

record launch_node = node +
  launch_children :: "arg_node list"

text \<open>
  Reading a field of \<^verbatim>\<open>undefined\<close> and iterating over \<^verbatim>\<open>undefined\<close> throw a
  \<^verbatim>\<open>TypeError\<close>. The calls of \<^verbatim>\<open>console.assert\<close> only log.
\<close>

datatype error = TypeError

text \<open>
  \<^verbatim>\<open>window.prompt(message, "true")\<close> is the user's answer to the message: \<open>None\<close> when
  the dialog is cancelled, the text otherwise. An empty text is falsy and counts as a
  cancellation.
\<close>

type_synonym prompt = "string \<Rightarrow> string option"

text \<open>
  \<^verbatim>\<open>setValueSelected(d, ask)\<close>, with the \<^verbatim>\<open>ui.name\<close> of the parent of \<open>d\<close> for the message.
  The result is the returned boolean and the value node after the call.
\<close>

definition setValueSelected ::
    "prompt \<Rightarrow> string \<Rightarrow> value_node \<Rightarrow> bool \<Rightarrow> bool \<times> value_node" where
  "setValueSelected ask_user parent_name d ask =
     (if \<not> data_resolved d then
        if ask \<or> ui_value d = None then
          (case ask_user (''Value for ['' @ parent_name @ '']:'') of
             None \<Rightarrow> (False, d)
           | Some v \<Rightarrow>
               if v = [] then (False, d)
               else (True, d\<lparr>ui_value := Some v, ui_name := v @ '' (*)'',
                              ui_selected := TTrue, data_selected := TTrue\<rparr>))
        else (True, d\<lparr>ui_selected := TNull, data_selected := TTrue\<rparr>)
      else (True, d\<lparr>ui_selected := TTrue, data_selected := TTrue\<rparr>))"

text \<open>
  The loop of \<^verbatim>\<open>propagateArgSelection\<close> that looks for the previously selected value:
  the first index \<open>j\<close>, counted from \<open>j0\<close>, of a child whose \<^verbatim>\<open>id\<close> is \<open>previous\<close>.
\<close>

fun previousIndex :: "nat \<Rightarrow> value_node list \<Rightarrow> nat \<Rightarrow> nat option" where
  "previousIndex previous [] j0 = None"
| "previousIndex previous (c # cs) j0 =
     (if nid c = previous then Some j0 else previousIndex previous cs (Suc j0))"

text \<open>
  The index of the value that \<^verbatim>\<open>propagateArgSelection\<close> selects: it starts as
  \<^verbatim>\<open>source.data.defaultValue || 0\<close> and becomes the index of the previously selected
  value when \<^verbatim>\<open>source.ui.previousValue\<close> is set and a child has that \<^verbatim>\<open>id\<close>.
\<close>

definition selectionIndex :: "arg_node \<Rightarrow> value_node list \<Rightarrow> int" where
  "selectionIndex source vals =
     (let i0 = (case data_defaultValue source of None \<Rightarrow> 0 | Some n \<Rightarrow> n)
      in case ui_previousValue source of
           None \<Rightarrow> i0
         | Some previous \<Rightarrow>
             (case previousIndex previous vals 0 of None \<Rightarrow> i0 | Some j \<Rightarrow> int j))"

text \<open>
  \<^verbatim>\<open>propagateArgSelection(source)\<close>: the returned boolean and the arg node after the
  call. Without children the \<^verbatim>\<open>for ... of\<close> loop throws; \<^verbatim>\<open>children[i]\<close> is \<^verbatim>\<open>undefined\<close>
  for an index outside the array, and \<^verbatim>\<open>setValueSelected\<close> then throws on \<^verbatim>\<open>d.data\<close>.
\<close>

definition propagateArgSelection :: "prompt \<Rightarrow> arg_node \<Rightarrow> error + (bool \<times> arg_node)" where
  "propagateArgSelection ask_user source =
     (if arg_children source = [] then Inl TypeError
      else if truthy (data_selected source) then
        (let vals = map (\<lambda>d. d\<lparr>ui_selected := TFalse, data_selected := TFalse\<rparr>)
                        (arg_children source);
             i = selectionIndex source vals
         in if 0 \<le> i \<and> i < int (length vals) then
              (case setValueSelected ask_user (ui_name source) (vals ! nat i) False of
                 (ok, d) \<Rightarrow>
                   Inr (ok, source\<lparr>arg_children := vals[nat i := d],
                                   ui_previousValue :=
                                     (if ok then Some (nid d) else ui_previousValue source)\<rparr>))
            else Inl TypeError)
      else
        Inr (True, source\<lparr>arg_children :=
               map (\<lambda>d. d\<lparr>data_selected := data_selected source,
                             ui_selected := data_selected source\<rparr>)
                   (arg_children source)\<rparr>))"

text \<open>
  The two loops of \<^verbatim>\<open>propagateRosLaunchSelection\<close> over the args of a launch file: the
  first runs when the launch file is selected and skips the args that are selected
  already, the second runs otherwise and gives every arg the value \<open>v\<close> of the launch
  file.
\<close>

fun selectedLaunchLoop :: "prompt \<Rightarrow> arg_node list \<Rightarrow> error + arg_node list" where
  "selectedLaunchLoop ask_user [] = Inr []"
| "selectedLaunchLoop ask_user (d # ds) =
     (if truthy (data_selected d) then
        (case selectedLaunchLoop ask_user ds of
           Inl e \<Rightarrow> Inl e
         | Inr ds' \<Rightarrow> Inr (d # ds'))
      else
        (case propagateArgSelection ask_user (d\<lparr>ui_selected := TNull, data_selected := TNull\<rparr>) of
           Inl e \<Rightarrow> Inl e
         | Inr (ok, d') \<Rightarrow>
             (case selectedLaunchLoop ask_user ds of
                Inl e \<Rightarrow> Inl e
              | Inr ds' \<Rightarrow> Inr (d' # ds'))))"

fun unselectedLaunchLoop :: "prompt \<Rightarrow> tri \<Rightarrow> arg_node list \<Rightarrow> error + arg_node list" where
  "unselectedLaunchLoop ask_user v [] = Inr []"
| "unselectedLaunchLoop ask_user v (d # ds) =
     (case propagateArgSelection ask_user (d\<lparr>ui_selected := TNull, data_selected := TNull\<rparr>) of
        Inl e \<Rightarrow> Inl e
      | Inr (ok, d') \<Rightarrow>
          (case unselectedLaunchLoop ask_user v ds of
             Inl e \<Rightarrow> Inl e
           | Inr ds' \<Rightarrow> Inr (d'\<lparr>ui_selected := v, data_selected := v\<rparr> # ds')))"

definition propagateRosLaunchSelection :: "prompt \<Rightarrow> launch_node \<Rightarrow> error + launch_node" where
  "propagateRosLaunchSelection ask_user source =
     (if launch_children source = [] then Inr source
      else
        (case (if truthy (data_selected source)
               then selectedLaunchLoop ask_user (launch_children source)
               else unselectedLaunchLoop ask_user (data_selected source) (launch_children source)) of
           Inl e \<Rightarrow> Inl e
         | Inr args \<Rightarrow> Inr (source\<lparr>launch_children := args\<rparr>)))"

text \<open>
  \<^verbatim>\<open>propagateValueSelection(source)\<close>, where \<open>source\<close> is the value with index \<open>vi\<close> of the
  arg with index \<open>ai\<close> of the launch file \<open>roslaunch\<close>: \<^verbatim>\<open>source.parent\<close> is that arg and
  \<^verbatim>\<open>arg.parent\<close> is the launch file. The result is the launch file with its subtree
  after the call. The boolean returned by the last \<^verbatim>\<open>propagateArgSelection\<close> is dropped,
  as in the source.
\<close>

definition propagateValueSelection ::
    "prompt \<Rightarrow> launch_node \<Rightarrow> nat \<Rightarrow> nat \<Rightarrow> error + launch_node" where
  "propagateValueSelection ask_user roslaunch ai vi =
     (let source_id = nid (arg_children (launch_children roslaunch ! ai) ! vi) in
      case (if \<not> truthy (data_selected roslaunch)
            then propagateRosLaunchSelection ask_user (roslaunch\<lparr>data_selected := TTrue\<rparr>)
            else Inr roslaunch) of
        Inl e \<Rightarrow> Inl e
      | Inr roslaunch1 \<Rightarrow>
          (case propagateArgSelection ask_user
                  ((launch_children roslaunch1 ! ai)
                     \<lparr>ui_selected := TTrue, data_selected := TTrue,
                      ui_previousValue := Some source_id\<rparr>) of
             Inl e \<Rightarrow> Inl e
           | Inr (ok, arg) \<Rightarrow>
               Inr (roslaunch1\<lparr>launch_children := (launch_children roslaunch1)[ai := arg]\<rparr>)))"

text \<open>
  The step of a label click on the tri-state: true, then false, then unknown, then
  true again (the last \<^verbatim>\<open>else\<close> branch also takes \<^verbatim>\<open>undefined\<close> to true).
\<close>

fun nextState :: "tri \<Rightarrow> tri" where
  "nextState TTrue = TFalse"
| "nextState TFalse = TNull"
| "nextState TNull = TTrue"
| "nextState TUndefined = TTrue"

text \<open>\<^verbatim>\<open>onSelectRosLaunch(d)\<close>; the final \<^verbatim>\<open>render\<close> only redraws the labels.\<close>

definition onSelectRosLaunch :: "prompt \<Rightarrow> launch_node \<Rightarrow> error + launch_node" where
  "onSelectRosLaunch ask_user d =
     (if ui_selected d \<noteq> data_selected d then Inr (d\<lparr>ui_selected := data_selected d\<rparr>)
      else
        propagateRosLaunchSelection ask_user
          (if truthy (data_selected d) then d\<lparr>data_selected := TFalse, ui_selected := TFalse\<rparr>
           else if data_selected d = TFalse then d\<lparr>data_selected := TNull, ui_selected := TNull\<rparr>
           else d\<lparr>data_selected := TTrue, ui_selected := TTrue\<rparr>))"


section \<open>The feature tree with a value column (views/collapsible-tree.js, \<^verbatim>\<open>onValueLabelClick\<close>)\<close>

text \<open>
  In this version of the tree a node carries \<^verbatim>\<open>data.value\<close> (the state in force) and
  \<^verbatim>\<open>data.userValue\<close> (what the user chose by a click); the label is drawn as automatic
  when the two differ. A node is a tree of any depth. \<open>expanded\<close> says whether its
  \<^verbatim>\<open>children\<close> field is set: a click on the bullet moves the children to \<^verbatim>\<open>_children\<close>
  and back, and a node without children has neither.
\<close>

datatype vtree =
  VTree (data_value: tri) (data_userValue: tri) (expanded: bool) (subtrees: "vtree list")

text \<open>
  A node is addressed by its path from the root, the list of child indices; the
  \<^verbatim>\<open>depth\<close> of the node is the length of the path and \<^verbatim>\<open>d.parent\<close> has the path without
  its last index.
\<close>

fun nodeAt :: "vtree \<Rightarrow> nat list \<Rightarrow> vtree option" where
  "nodeAt t [] = Some t"
| "nodeAt t (i # p) = (if i < length (subtrees t) then nodeAt (subtrees t ! i) p else None)"

fun updateAt :: "(vtree \<Rightarrow> vtree) \<Rightarrow> nat list \<Rightarrow> vtree \<Rightarrow> vtree" where
  "updateAt f [] t = f t"
| "updateAt f (i # p) (VTree v u e ts) =
     (if i < length ts then VTree v u e (ts[i := updateAt f p (ts ! i)]) else VTree v u e ts)"

text \<open>The three branches of \<^verbatim>\<open>onValueLabelClick\<close> on the clicked node.\<close>

fun clickValue :: "vtree \<Rightarrow> vtree" where
  "clickValue (VTree v u e ts) =
     (if truthy v then VTree TFalse TFalse e ts
      else if v = TFalse then VTree TNull TNull e ts
      else VTree TTrue TTrue e ts)"

text \<open>
  \<^verbatim>\<open>recalculateValue(d)\<close>: nothing without \<^verbatim>\<open>d.children\<close>; otherwise \<^verbatim>\<open>value\<close> is true when
  a child has a truthy value and \<^verbatim>\<open>null\<close> when none has, and the node gets
  \<^verbatim>\<open>value || d.data.userValue\<close>.
\<close>

fun recalculateValue :: "vtree \<Rightarrow> vtree" where
  "recalculateValue (VTree v u e ts) =
     (if \<not> (e \<and> ts \<noteq> []) then VTree v u e ts
      else VTree (if list_ex (\<lambda>c. truthy (data_value c)) ts then TTrue else u) u e ts)"

text \<open>
  The first loop of \<^verbatim>\<open>propagateSelection\<close>, over the ancestors \<open>n\<close> of the source from its
  parent upwards, as long as \<^verbatim>\<open>n.depth > 0\<close>; \<open>n\<close> is given by its path.
\<close>

function ancestorsLoop :: "nat list \<Rightarrow> vtree \<Rightarrow> vtree" where
  "ancestorsLoop n t =
     (if n = [] then t else ancestorsLoop (butlast n) (updateAt recalculateValue n t))"
  by pat_completeness auto
termination
  by (relation "measure (\<lambda>(n, t). length n)") auto

declare ancestorsLoop.simps [simp del]

text \<open>
  The second loop of \<^verbatim>\<open>propagateSelection\<close>: every descendant \<open>datum\<close> of the source gets
  \<^verbatim>\<open>datum.value = fv(datum)\<close>. The stack only fixes the order of the visits, and each
  visit writes to the visited datum alone.
\<close>

fun descendantsLoop :: "(vtree \<Rightarrow> tri) \<Rightarrow> vtree \<Rightarrow> vtree" where
  "descendantsLoop fv (VTree v u e ts) =
     VTree (fv (VTree v u e ts)) u e (map (descendantsLoop fv) ts)"

fun pushDown :: "vtree \<Rightarrow> vtree" where
  "pushDown (VTree v u e ts) =
     (if truthy v then VTree v u e ts
      else VTree v u e
             (map (descendantsLoop (if nullish v then data_userValue else (\<lambda>d. v))) ts))"

definition propagateSelection :: "vtree \<Rightarrow> nat list \<Rightarrow> vtree" where
  "propagateSelection root source =
     updateAt pushDown source (ancestorsLoop (butlast source) root)"

text \<open>
  \<^verbatim>\<open>onValueLabelClick(event, d)\<close> for the node \<open>d\<close> at the path \<open>source\<close> of the tree; the
  root (\<^verbatim>\<open>d.depth == 0\<close>) is skipped and \<^verbatim>\<open>render\<close> only redraws.
\<close>

definition onValueLabelClick :: "vtree \<Rightarrow> nat list \<Rightarrow> vtree" where
  "onValueLabelClick root source =
     (if source = [] then root
      else propagateSelection (updateAt clickValue source root) source)"


section \<open>The visible part of the graph (views/ros.js, \<^verbatim>\<open>RosStaticGraph.updateVisibility\<close>)\<close>

text \<open>
  A resource (node, topic, service or parameter) has a Backbone model, of which
  \<^verbatim>\<open>updateVisibility\<close> reads the \<^verbatim>\<open>id\<close> (the client id given by \<^verbatim>\<open>_addResource\<close>) and the
  attribute \<^verbatim>\<open>resourceType\<close>, and a view object with the flag \<^verbatim>\<open>visible\<close>. An edge object,
  built by \<^verbatim>\<open>_addEdge\<close>, refers to the views of its two ends and has a flag \<^verbatim>\<open>visible\<close> of
  its own; \<^verbatim>\<open>updateVisibility\<close> reads through it only \<^verbatim>\<open>v.source.model\<close> and
  \<^verbatim>\<open>v.target.model\<close>, which never change, so the edge carries these two models.
\<close>

type_synonym node_id = string

record resource_model =
  model_id :: node_id
  resourceType :: string

record resource_node =
  node_model :: resource_model
  node_visible :: bool

record edge =
  edge_source :: resource_model
  edge_target :: resource_model
  edge_visible :: bool

text \<open>
  The directed graph of the layout library (\<^verbatim>\<open>new dagre.graphlib.Graph()\<close>, not a
  multigraph): node keys and edge keys in insertion order, each with its label. A key
  without a label has the label \<^verbatim>\<open>undefined\<close>. \<^verbatim>\<open>setNode(k)\<close> without a label adds the
  key when it is new and leaves an existing node alone; \<^verbatim>\<open>setNode(k, label)\<close> also sets
  the label; \<^verbatim>\<open>setEdge(e, label)\<close> sets the label of an existing edge, and for a new edge
  first makes sure that both ends are nodes.
\<close>

record digraph =
  node_keys :: "node_id list"
  node_label :: "node_id \<rightharpoonup> resource_node"
  edge_keys :: "(node_id \<times> node_id) list"
  edge_label :: "(node_id \<times> node_id) \<rightharpoonup> edge"

definition newGraph :: digraph where
  "newGraph = \<lparr>node_keys = [], node_label = Map.empty, edge_keys = [], edge_label = Map.empty\<rparr>"

definition hasEdge :: "digraph \<Rightarrow> node_id \<Rightarrow> node_id \<Rightarrow> bool" where
  "hasEdge g v w = ((v, w) \<in> set (edge_keys g))"

definition addNode :: "node_id \<Rightarrow> digraph \<Rightarrow> digraph" where
  "addNode k g = (if k \<in> set (node_keys g) then g else g\<lparr>node_keys := node_keys g @ [k]\<rparr>)"

definition setNode :: "node_id \<Rightarrow> resource_node \<Rightarrow> digraph \<Rightarrow> digraph" where
  "setNode k v g = (addNode k g)\<lparr>node_label := (node_label g)(k \<mapsto> v)\<rparr>"

definition setEdge :: "node_id \<times> node_id \<Rightarrow> edge \<Rightarrow> digraph \<Rightarrow> digraph" where
  "setEdge e v g =
     (if e \<in> set (edge_keys g) then g\<lparr>edge_label := (edge_label g)(e \<mapsto> v)\<rparr>
      else (addNode (snd e) (addNode (fst e) g))
             \<lparr>edge_keys := edge_keys g @ [e], edge_label := (edge_label g)(e \<mapsto> v)\<rparr>)"

text \<open>
  The fields of the view that \<^verbatim>\<open>updateVisibility\<close> uses. \<^verbatim>\<open>this.focus\<close> is \<^verbatim>\<open>null\<close> or one of
  the node views; a view is identified by the id of its model, so \<^verbatim>\<open>v === this.focus\<close>
  is the equality of \<^verbatim>\<open>v.model.id\<close> and \<^verbatim>\<open>this.focus.model.id\<close>.
\<close>

record static_graph =
  graph :: digraph
  showParams :: bool
  focus :: "node_id option"

text \<open>
  A loop \<^verbatim>\<open>for (i = nodes.length; i--;)\<close> that assigns to a field of
  \<^verbatim>\<open>this.graph.node(nodes[i])\<close>; \<open>f\<close> is the assignment. The label \<^verbatim>\<open>undefined\<close> makes
  the assignment throw. The same for the edges.
\<close>

fun eachNode ::
    "(resource_node \<Rightarrow> resource_node) \<Rightarrow> node_id list \<Rightarrow> digraph \<Rightarrow> error + digraph" where
  "eachNode f [] g = Inr g"
| "eachNode f (k # ks) g =
     (case node_label g k of
        None \<Rightarrow> Inl TypeError
      | Some v \<Rightarrow> eachNode f ks (g\<lparr>node_label := (node_label g)(k \<mapsto> f v)\<rparr>))"

fun eachEdge ::
    "(edge \<Rightarrow> edge) \<Rightarrow> (node_id \<times> node_id) list \<Rightarrow> digraph \<Rightarrow> error + digraph" where
  "eachEdge f [] g = Inr g"
| "eachEdge f (k # ks) g =
     (case edge_label g k of
        None \<Rightarrow> Inl TypeError
      | Some v \<Rightarrow> eachEdge f ks (g\<lparr>edge_label := (edge_label g)(k \<mapsto> f v)\<rparr>))"

text \<open>
  A loop of the second half: it assigns to the label as above (\<open>f\<close> is the identity in
  the loops that only read \<^verbatim>\<open>v.visible\<close>) and then puts the label into \<^verbatim>\<open>visibleGraph\<close> when
  it is visible, a node under the key \<^verbatim>\<open>v.model.id\<close> and an edge under its own key
  \<^verbatim>\<open>edges[i]\<close>.
\<close>

fun collectNodes ::
    "(resource_node \<Rightarrow> resource_node) \<Rightarrow> node_id list \<Rightarrow> digraph \<Rightarrow> digraph \<Rightarrow>
     error + (digraph \<times> digraph)" where
  "collectNodes f [] g visibleGraph = Inr (g, visibleGraph)"
| "collectNodes f (k # ks) g visibleGraph =
     (case node_label g k of
        None \<Rightarrow> Inl TypeError
      | Some v \<Rightarrow>
          collectNodes f ks (g\<lparr>node_label := (node_label g)(k \<mapsto> f v)\<rparr>)
            (if node_visible (f v) then setNode (model_id (node_model (f v))) (f v) visibleGraph
             else visibleGraph))"

fun collectEdges ::
    "(node_id \<times> node_id \<Rightarrow> edge \<Rightarrow> edge) \<Rightarrow> (node_id \<times> node_id) list \<Rightarrow> digraph \<Rightarrow> digraph \<Rightarrow>
     error + (digraph \<times> digraph)" where
  "collectEdges f [] g visibleGraph = Inr (g, visibleGraph)"
| "collectEdges f (k # ks) g visibleGraph =
     (case edge_label g k of
        None \<Rightarrow> Inl TypeError
      | Some v \<Rightarrow>
          collectEdges f ks (g\<lparr>edge_label := (edge_label g)(k \<mapsto> f k v)\<rparr>)
            (if edge_visible (f k v) then setEdge k (f k v) visibleGraph else visibleGraph))"

text \<open>
  \<^verbatim>\<open>updateVisibility()\<close>: the view after the call and the returned graph. The key lists
  \<^verbatim>\<open>nodes\<close> and \<^verbatim>\<open>edges\<close> are read once at the start and walked from the last key to the
  first. The graph-wide layout options that \<^verbatim>\<open>setGraph\<close> copies are not part of the model.
\<close>

definition updateVisibility :: "static_graph \<Rightarrow> error + (static_graph \<times> digraph)" where
  "updateVisibility this =
     (let nodes = rev (node_keys (graph this)); edges = rev (edge_keys (graph this)) in
      case (if showParams this then
              (case eachNode (\<lambda>v. v\<lparr>node_visible := True\<rparr>) nodes (graph this) of
                 Inl e \<Rightarrow> Inl e
               | Inr g \<Rightarrow> eachEdge (\<lambda>v. v\<lparr>edge_visible := True\<rparr>) edges g)
            else
              (case eachNode
                      (\<lambda>v. v\<lparr>node_visible := (resourceType (node_model v) \<noteq> ''param'')\<rparr>)
                      nodes (graph this) of
                 Inl e \<Rightarrow> Inl e
               | Inr g \<Rightarrow>
                   eachEdge
                     (\<lambda>v. v\<lparr>edge_visible := (resourceType (edge_source v) \<noteq> ''param'' \<and>
                                              resourceType (edge_target v) \<noteq> ''param'')\<rparr>)
                     edges g)) of
        Inl e \<Rightarrow> Inl e
      | Inr g \<Rightarrow>
          if showParams this \<and> focus this = None then Inr (this\<lparr>graph := g\<rparr>, g)
          else
            (case focus this of
               Some f \<Rightarrow>
                 (case collectNodes
                         (\<lambda>v. v\<lparr>node_visible :=
                                 (node_visible v \<and>
                                  (model_id (node_model v) = f \<or>
                                   hasEdge g (model_id (node_model v)) f \<or>
                                   hasEdge g f (model_id (node_model v))))\<rparr>)
                         nodes g newGraph of
                    Inl e \<Rightarrow> Inl e
                  | Inr (g1, visibleGraph1) \<Rightarrow>
                      (case collectEdges
                              (\<lambda>k v. v\<lparr>edge_visible :=
                                        (edge_visible v \<and> (fst k = f \<or> snd k = f))\<rparr>)
                              edges g1 visibleGraph1 of
                         Inl e \<Rightarrow> Inl e
                       | Inr (g2, visibleGraph) \<Rightarrow> Inr (this\<lparr>graph := g2\<rparr>, visibleGraph)))
             | None \<Rightarrow>
                 (case collectNodes (\<lambda>v. v) nodes g newGraph of
                    Inl e \<Rightarrow> Inl e
                  | Inr (g1, visibleGraph1) \<Rightarrow>
                      (case collectEdges (\<lambda>k v. v) edges g1 visibleGraph1 of
                         Inl e \<Rightarrow> Inl e
                       | Inr (g2, visibleGraph) \<Rightarrow> Inr (this\<lparr>graph := g2\<rparr>, visibleGraph)))))"

text \<open>
  The value that the two halves of \<^verbatim>\<open>updateVisibility\<close> together leave in the \<^verbatim>\<open>visible\<close>
  flag of a node view \<open>v\<close>, and of the edge \<open>e\<close> with the key \<open>k\<close>: the first half sets
  the flag by the parameter condition, the second half keeps it only next to the focus.
\<close>

definition shownNode :: "static_graph \<Rightarrow> resource_node \<Rightarrow> bool" where
  "shownNode this v =
     ((showParams this \<or> resourceType (node_model v) \<noteq> ''param'') \<and>
      (case focus this of
         None \<Rightarrow> True
       | Some f \<Rightarrow> model_id (node_model v) = f \<or>
                   hasEdge (graph this) (model_id (node_model v)) f \<or>
                   hasEdge (graph this) f (model_id (node_model v))))"

definition shownEdge :: "static_graph \<Rightarrow> node_id \<times> node_id \<Rightarrow> edge \<Rightarrow> bool" where
  "shownEdge this k e =
     ((showParams this \<or>
       (resourceType (edge_source e) \<noteq> ''param'' \<and> resourceType (edge_target e) \<noteq> ''param'')) \<and>
      (case focus this of None \<Rightarrow> True | Some f \<Rightarrow> fst k = f \<or> snd k = f))"


text \<open>
  How \<^verbatim>\<open>setModel\<close> fills \<^verbatim>\<open>this.graph\<close>. \<^verbatim>\<open>_addResource\<close> makes a model with a fresh client
  id and a view for it, which starts invisible, and sets the view as the node of that
  id. \<^verbatim>\<open>_addEdge(sourceCid, targetCid, conditional)\<close> looks up the views of the two ids
  and sets an edge object between them, which starts invisible; its callers pass the
  ids of resources that they have looked up, so both views exist (\<open>None\<close> when one does
  not, where the edge would have an \<^verbatim>\<open>undefined\<close> end).
\<close>

definition addResource :: "resource_model \<Rightarrow> digraph \<Rightarrow> digraph" where
  "addResource m g = setNode (model_id m) \<lparr>node_model = m, node_visible = False\<rparr> g"

definition addEdge :: "node_id \<Rightarrow> node_id \<Rightarrow> digraph \<Rightarrow> digraph option" where
  "addEdge sourceCid targetCid g =
     (case (node_label g sourceCid, node_label g targetCid) of
        (Some s, Some t) \<Rightarrow>
          Some (setEdge (sourceCid, targetCid)
                  \<lparr>edge_source = node_model s, edge_target = node_model t,
                   edge_visible = False\<rparr> g)
      | _ \<Rightarrow> None)"

text \<open>
  What \<^verbatim>\<open>_addResource\<close> and \<^verbatim>\<open>_addEdge\<close> establish for \<^verbatim>\<open>this.graph\<close>: every node key has a
  view as its label, whose model has that key as its id; every edge key \<open>(a, b)\<close> has an
  edge object as its label, whose ends are the views of the nodes \<open>a\<close> and \<open>b\<close>; the
  library keeps each key once.
\<close>

definition wellFormed :: "digraph \<Rightarrow> bool" where
  "wellFormed g =
     (distinct (node_keys g) \<and> distinct (edge_keys g) \<and>
      list_all (\<lambda>k. case node_label g k of
                      None \<Rightarrow> False
                    | Some v \<Rightarrow> model_id (node_model v) = k) (node_keys g) \<and>
      list_all (\<lambda>k. fst k \<in> set (node_keys g) \<and> snd k \<in> set (node_keys g) \<and>
                    (case edge_label g k of
                       None \<Rightarrow> False
                     | Some e \<Rightarrow>
                         map_option node_model (node_label g (fst k)) = Some (edge_source e) \<and>
                         map_option node_model (node_label g (snd k)) = Some (edge_target e)))
               (edge_keys g))"


section \<open>Properties of the name matcher\<close>

subsection \<open>One equation per branch of the loop body\<close>

lemma nameMatch_outside:
  "\<not> (i < int (length a1) \<and> j < int (length a2)) \<Longrightarrow>
   nameMatch a1 i a2 j = (i = int (length a1) \<and> j = int (length a2))"
  by (subst nameMatch.simps) auto

lemma nameMatch_last_left:
  "i = int (length a1) - 1 \<Longrightarrow> j < int (length a2) \<Longrightarrow> segment a1 i = Some ''?'' \<Longrightarrow>
   nameMatch a1 i a2 j"
  by (subst nameMatch.simps) auto

lemma nameMatch_inner_left:
  "i < int (length a1) - 1 \<Longrightarrow> j < int (length a2) \<Longrightarrow> segment a1 i = Some ''?'' \<Longrightarrow>
   nameMatch a1 i a2 j =
     (\<exists>k. j \<le> k \<and> k < int (length a2) \<and> nameMatch a1 (i + 1) a2 k)"
  by (subst nameMatch.simps) (auto simp: list_ex_iff)

lemma nameMatch_last_right:
  "i < int (length a1) \<Longrightarrow> j = int (length a2) - 1 \<Longrightarrow> segment a1 i \<noteq> Some ''?'' \<Longrightarrow>
   segment a2 j = Some ''?'' \<Longrightarrow> nameMatch a1 i a2 j"
  by (subst nameMatch.simps) auto

lemma nameMatch_inner_right:
  "i < int (length a1) \<Longrightarrow> j < int (length a2) - 1 \<Longrightarrow> segment a1 i \<noteq> Some ''?'' \<Longrightarrow>
   segment a2 j = Some ''?'' \<Longrightarrow>
   nameMatch a1 i a2 j =
     (\<exists>k. i \<le> k \<and> k < int (length a1) \<and> nameMatch a1 k a2 (j + 1))"
  by (subst nameMatch.simps) (auto simp: list_ex_iff)

lemma nameMatch_plain:
  "i < int (length a1) \<Longrightarrow> j < int (length a2) \<Longrightarrow> segment a1 i \<noteq> Some ''?'' \<Longrightarrow>
   segment a2 j \<noteq> Some ''?'' \<Longrightarrow>
   nameMatch a1 i a2 j =
     (segment a1 i = segment a2 j \<and> nameMatch a1 (i + 1) a2 (j + 1))"
  by (subst nameMatch.simps) auto

text \<open>
  A wildcard that ends the second name is reached even when the first name has
  wildcards of its own at this point: each of them hands over to the next index.
\<close>

lemma nameMatch_trailing_right:
  "i < int (length a1) \<Longrightarrow> j = int (length a2) - 1 \<Longrightarrow> segment a2 j = Some ''?'' \<Longrightarrow>
   nameMatch a1 i a2 j"
proof (induction "nat (int (length a1) - i)" arbitrary: i rule: less_induct)
  case less
  show ?case
  proof (cases "segment a1 i = Some ''?''")
    case False
    with less.prems show ?thesis by (simp add: nameMatch_last_right)
  next
    case q: True
    show ?thesis
    proof (cases "i = int (length a1) - 1")
      case True
      with less.prems q show ?thesis by (simp add: nameMatch_last_left)
    next
      case False
      with less.prems have lt: "i < int (length a1) - 1" by simp
      have "nameMatch a1 (i + 1) a2 j"
        using less.hyps [of "i + 1"] less.prems lt by simp
      with less.prems lt q show ?thesis
        by (subst nameMatch_inner_left) auto
    qed
  qed
qed

subsection \<open>Swapping the two names\<close>

lemma nameMatch_swap: "nameMatch a1 i a2 j = nameMatch a2 j a1 i"
proof (induction "remaining (a1, i, a2, j)" arbitrary: i j rule: less_induct)
  case less
  let ?l1 = "int (length a1)" and ?l2 = "int (length a2)"
  have IH: "\<And>i' j'. remaining (a1, i', a2, j') < remaining (a1, i, a2, j) \<Longrightarrow>
              nameMatch a1 i' a2 j' = nameMatch a2 j' a1 i'"
    using less.hyps by blast
  show ?case
  proof (cases "i < ?l1 \<and> j < ?l2")
    case False
    then show ?thesis by (auto simp: nameMatch_outside)
  next
    case inr: True
    consider (left) "segment a1 i = Some ''?''" "segment a2 j \<noteq> Some ''?''"
      | (right) "segment a1 i \<noteq> Some ''?''" "segment a2 j = Some ''?''"
      | (plain) "segment a1 i \<noteq> Some ''?''" "segment a2 j \<noteq> Some ''?''"
      | (both) "segment a1 i = Some ''?''" "segment a2 j = Some ''?''"
      by blast
    then show ?thesis
    proof cases
      case plain
      have "nameMatch a1 (i + 1) a2 (j + 1) = nameMatch a2 (j + 1) a1 (i + 1)"
        using inr by (intro IH) (auto simp: remaining_def)
      with plain inr show ?thesis by (auto simp: nameMatch_plain)
    next
      case left
      show ?thesis
      proof (cases "i = ?l1 - 1")
        case True
        with left inr show ?thesis
          by (simp add: nameMatch_last_left nameMatch_last_right)
      next
        case False
        with inr have lt: "i < ?l1 - 1" by simp
        have sw: "\<And>k. j \<le> k \<Longrightarrow> nameMatch a1 (i + 1) a2 k = nameMatch a2 k a1 (i + 1)"
          using inr by (intro IH) (auto simp: remaining_def)
        have "nameMatch a1 i a2 j =
                (\<exists>k. j \<le> k \<and> k < ?l2 \<and> nameMatch a1 (i + 1) a2 k)"
          using left inr lt by (simp add: nameMatch_inner_left)
        moreover have "nameMatch a2 j a1 i =
                (\<exists>k. j \<le> k \<and> k < ?l2 \<and> nameMatch a2 k a1 (i + 1))"
          using left inr lt by (simp add: nameMatch_inner_right)
        ultimately show ?thesis using sw by auto
      qed
    next
      case right
      show ?thesis
      proof (cases "j = ?l2 - 1")
        case True
        with right inr show ?thesis
          by (simp add: nameMatch_last_left nameMatch_last_right)
      next
        case False
        with inr have lt: "j < ?l2 - 1" by simp
        have sw: "\<And>k. i \<le> k \<Longrightarrow> nameMatch a1 k a2 (j + 1) = nameMatch a2 (j + 1) a1 k"
          using inr by (intro IH) (auto simp: remaining_def)
        have "nameMatch a1 i a2 j =
                (\<exists>k. i \<le> k \<and> k < ?l1 \<and> nameMatch a1 k a2 (j + 1))"
          using right inr lt by (simp add: nameMatch_inner_right)
        moreover have "nameMatch a2 j a1 i =
                (\<exists>k. i \<le> k \<and> k < ?l1 \<and> nameMatch a2 (j + 1) a1 k)"
          using right inr lt by (simp add: nameMatch_inner_left)
        ultimately show ?thesis using sw by auto
      qed
    next
      case both
      show ?thesis
      proof (cases "i = ?l1 - 1 \<or> j = ?l2 - 1")
        case True
        then show ?thesis
          using both inr by (auto simp: nameMatch_last_left nameMatch_trailing_right)
      next
        case False
        with inr have lt: "i < ?l1 - 1" "j < ?l2 - 1" by auto
        define A where "A = (\<exists>k. j + 1 \<le> k \<and> k < ?l2 \<and> nameMatch a1 (i + 1) a2 k)"
        define B where "B = (\<exists>k. i + 1 \<le> k \<and> k < ?l1 \<and> nameMatch a1 k a2 (j + 1))"
        have L: "nameMatch a1 i a2 j = (nameMatch a1 (i + 1) a2 j \<or> A)"
        proof -
          have "nameMatch a1 i a2 j =
                  (\<exists>k. j \<le> k \<and> k < ?l2 \<and> nameMatch a1 (i + 1) a2 k)"
            using both inr lt by (simp add: nameMatch_inner_left)
          also have "\<dots> = (nameMatch a1 (i + 1) a2 j \<or> A)"
            unfolding A_def using inr
            by (metis add.commute add1_zle_eq order_le_less order_refl zless_imp_add1_zle)
          finally show ?thesis .
        qed
        have IHk: "\<And>k. i \<le> k \<Longrightarrow> nameMatch a2 (j + 1) a1 k = nameMatch a1 k a2 (j + 1)"
        proof -
          fix k :: int assume "i \<le> k"
          then have "remaining (a1, k, a2, j + 1) < remaining (a1, i, a2, j)"
            using inr by (auto simp: remaining_def)
          then show "nameMatch a2 (j + 1) a1 k = nameMatch a1 k a2 (j + 1)"
            using IH by simp
        qed
        have R: "nameMatch a2 j a1 i = (nameMatch a1 i a2 (j + 1) \<or> B)"
        proof -
          have "nameMatch a2 j a1 i =
                  (\<exists>k. i \<le> k \<and> k < ?l1 \<and> nameMatch a2 (j + 1) a1 k)"
            using both inr lt by (simp add: nameMatch_inner_left)
          also have "\<dots> = (\<exists>k. i \<le> k \<and> k < ?l1 \<and> nameMatch a1 k a2 (j + 1))"
            using IHk by auto
          also have "\<dots> = (nameMatch a1 i a2 (j + 1) \<or> B)"
            unfolding B_def using inr
            by (metis add.commute add1_zle_eq order_le_less order_refl zless_imp_add1_zle)
          finally show ?thesis .
        qed
        have RA: "nameMatch a1 i a2 (j + 1) = A"
          unfolding A_def using both inr lt by (simp add: nameMatch_inner_left)
        have LB: "nameMatch a1 (i + 1) a2 j = B"
        proof -
          have "remaining (a1, i + 1, a2, j) < remaining (a1, i, a2, j)"
            using inr by (auto simp: remaining_def)
          then have "nameMatch a1 (i + 1) a2 j = nameMatch a2 j a1 (i + 1)"
            using IH by simp
          also have "\<dots> = (\<exists>k. i + 1 \<le> k \<and> k < ?l1 \<and> nameMatch a2 (j + 1) a1 k)"
            using both inr lt by (simp add: nameMatch_inner_left)
          also have "\<dots> = B"
            unfolding B_def using IHk by auto
          finally show ?thesis .
        qed
        show ?thesis
          using L R RA LB by blast
      qed
    qed
  qed
qed

text \<open>
  Claim C10. The matcher is symmetric: for all segment lists \<open>a\<close> and \<open>b\<close>,
  \<^verbatim>\<open>_nameMatch(a, 0, b, 0)\<close> and \<^verbatim>\<open>_nameMatch(b, 0, a, 0)\<close> return the same boolean.
\<close>

theorem nameMatch_symmetric: "nameMatch a 0 b 0 = nameMatch b 0 a 0"
  by (rule nameMatch_swap)

subsection \<open>The documented test pairs\<close>

lemma namesMatch_test_01: "namesMatch ''/ns/a'' ''/ns/a'' = True"
  by code_simp

lemma namesMatch_test_02: "namesMatch ''/ns/a'' ''/a'' = False"
  by code_simp

lemma namesMatch_test_03: "namesMatch ''/?/a'' ''/a'' = True"
  by code_simp

lemma namesMatch_test_04: "namesMatch ''/?/a'' ''/ns/a'' = True"
  by code_simp

lemma namesMatch_test_05: "namesMatch ''/?/a'' ''/ns/ns/a'' = True"
  by code_simp

lemma namesMatch_test_06: "namesMatch ''/a'' ''/?/a'' = True"
  by code_simp

lemma namesMatch_test_07: "namesMatch ''/ns/a'' ''/?/a'' = True"
  by code_simp

lemma namesMatch_test_08: "namesMatch ''/ns/ns/a'' ''/?/a'' = True"
  by code_simp

lemma namesMatch_test_09: "namesMatch ''/ns/?/a'' ''/ns/a'' = True"
  by code_simp

lemma namesMatch_test_10: "namesMatch ''/ns/?/a'' ''/ns/ns/a'' = True"
  by code_simp

lemma namesMatch_test_11: "namesMatch ''/ns/?/a'' ''/ns/ns/ns/a'' = True"
  by code_simp

lemma namesMatch_test_12: "namesMatch ''/ns/?/b'' ''/ns/a'' = False"
  by code_simp

lemma namesMatch_test_13: "namesMatch ''/ns/?'' ''/a'' = False"
  by code_simp

lemma namesMatch_test_14: "namesMatch ''/ns/?'' ''/ns/a'' = True"
  by code_simp

lemma namesMatch_test_15: "namesMatch ''/ns/?'' ''/ns/ns/a'' = True"
  by code_simp

lemma namesMatch_test_16: "namesMatch ''/?'' ''/a'' = True"
  by code_simp

lemma namesMatch_test_17: "namesMatch ''/?'' ''/ns/a'' = True"
  by code_simp

lemma namesMatch_test_18: "namesMatch ''/?'' ''/?'' = True"
  by code_simp

lemma namesMatch_test_19: "namesMatch ''/ns/?'' ''/?/a'' = True"
  by code_simp

lemma namesMatch_test_20: "namesMatch ''/ns/?'' ''/ns/?'' = True"
  by code_simp

lemma namesMatch_test_21: "namesMatch ''/ns/?'' ''/ns/?/a'' = True"
  by code_simp

lemma namesMatch_test_22: "namesMatch ''/?/?'' ''/a'' = True"
  by code_simp

lemma namesMatch_test_23: "namesMatch ''/?/?'' ''/ns/a'' = True"
  by code_simp

lemma namesMatch_test_24: "namesMatch ''/?/?'' ''/ns/ns/a'' = True"
  by code_simp

lemma namesMatch_tests:
  "namesMatch ''/ns/a'' ''/ns/a'' = True \<and>
   namesMatch ''/ns/a'' ''/a'' = False \<and>
   namesMatch ''/?/a'' ''/a'' = True \<and>
   namesMatch ''/?/a'' ''/ns/a'' = True \<and>
   namesMatch ''/?/a'' ''/ns/ns/a'' = True \<and>
   namesMatch ''/a'' ''/?/a'' = True \<and>
   namesMatch ''/ns/a'' ''/?/a'' = True \<and>
   namesMatch ''/ns/ns/a'' ''/?/a'' = True \<and>
   namesMatch ''/ns/?/a'' ''/ns/a'' = True \<and>
   namesMatch ''/ns/?/a'' ''/ns/ns/a'' = True \<and>
   namesMatch ''/ns/?/a'' ''/ns/ns/ns/a'' = True \<and>
   namesMatch ''/ns/?/b'' ''/ns/a'' = False \<and>
   namesMatch ''/ns/?'' ''/a'' = False \<and>
   namesMatch ''/ns/?'' ''/ns/a'' = True \<and>
   namesMatch ''/ns/?'' ''/ns/ns/a'' = True \<and>
   namesMatch ''/?'' ''/a'' = True \<and>
   namesMatch ''/?'' ''/ns/a'' = True \<and>
   namesMatch ''/?'' ''/?'' = True \<and>
   namesMatch ''/ns/?'' ''/?/a'' = True \<and>
   namesMatch ''/ns/?'' ''/ns/?'' = True \<and>
   namesMatch ''/ns/?'' ''/ns/?/a'' = True \<and>
   namesMatch ''/?/?'' ''/a'' = True \<and>
   namesMatch ''/?/?'' ''/ns/a'' = True \<and>
   namesMatch ''/?/?'' ''/ns/ns/a'' = True"
  by (simp only: namesMatch_test_01 namesMatch_test_02 namesMatch_test_03 namesMatch_test_04 namesMatch_test_05 namesMatch_test_06 namesMatch_test_07 namesMatch_test_08 namesMatch_test_09 namesMatch_test_10 namesMatch_test_11 namesMatch_test_12 namesMatch_test_13 namesMatch_test_14 namesMatch_test_15 namesMatch_test_16 namesMatch_test_17 namesMatch_test_18 namesMatch_test_19 namesMatch_test_20 namesMatch_test_21 namesMatch_test_22 namesMatch_test_23 namesMatch_test_24 simp_thms)

lemma nameMatch_inner_right_any:
  assumes "i < int (length a1)" and "j < int (length a2) - 1" and "segment a2 j = Some ''?''"
  shows "nameMatch a1 i a2 j =
           (\<exists>k. i \<le> k \<and> k < int (length a1) \<and> nameMatch a1 k a2 (j + 1))"
proof -
  have "nameMatch a1 i a2 j = nameMatch a2 j a1 i"
    by (rule nameMatch_swap)
  also have "\<dots> = (\<exists>k. i \<le> k \<and> k < int (length a1) \<and> nameMatch a2 (j + 1) a1 k)"
    using assms by (simp add: nameMatch_inner_left)
  also have "\<dots> = (\<exists>k. i \<le> k \<and> k < int (length a1) \<and> nameMatch a1 k a2 (j + 1))"
    using nameMatch_swap [of a2 "j + 1" a1] by simp
  finally show ?thesis .
qed

text \<open>
  Claim C1, as amended. \<^verbatim>\<open>_nameMatch\<close>, applied to two resource names split on the slash
  with both start indices 0, returns the documented boolean for each of the 24 test
  pairs of the comment above it. A \<^verbatim>\<open>?\<close> that is the last segment of its name matches
  whenever the other name has at least one segment left. A \<^verbatim>\<open>?\<close> that is not the last
  segment of its name matches zero or more segments of the other name: the match
  succeeds exactly when what follows the \<^verbatim>\<open>?\<close> matches the other name from its current
  segment or from a later one.
\<close>

theorem nameMatch_documented_tests:
  "namesMatch ''/ns/a'' ''/ns/a'' = True \<and>
   namesMatch ''/ns/a'' ''/a'' = False \<and>
   namesMatch ''/?/a'' ''/a'' = True \<and>
   namesMatch ''/?/a'' ''/ns/a'' = True \<and>
   namesMatch ''/?/a'' ''/ns/ns/a'' = True \<and>
   namesMatch ''/a'' ''/?/a'' = True \<and>
   namesMatch ''/ns/a'' ''/?/a'' = True \<and>
   namesMatch ''/ns/ns/a'' ''/?/a'' = True \<and>
   namesMatch ''/ns/?/a'' ''/ns/a'' = True \<and>
   namesMatch ''/ns/?/a'' ''/ns/ns/a'' = True \<and>
   namesMatch ''/ns/?/a'' ''/ns/ns/ns/a'' = True \<and>
   namesMatch ''/ns/?/b'' ''/ns/a'' = False \<and>
   namesMatch ''/ns/?'' ''/a'' = False \<and>
   namesMatch ''/ns/?'' ''/ns/a'' = True \<and>
   namesMatch ''/ns/?'' ''/ns/ns/a'' = True \<and>
   namesMatch ''/?'' ''/a'' = True \<and>
   namesMatch ''/?'' ''/ns/a'' = True \<and>
   namesMatch ''/?'' ''/?'' = True \<and>
   namesMatch ''/ns/?'' ''/?/a'' = True \<and>
   namesMatch ''/ns/?'' ''/ns/?'' = True \<and>
   namesMatch ''/ns/?'' ''/ns/?/a'' = True \<and>
   namesMatch ''/?/?'' ''/a'' = True \<and>
   namesMatch ''/?/?'' ''/ns/a'' = True \<and>
   namesMatch ''/?/?'' ''/ns/ns/a'' = True \<and>
   (i = int (length a1) - 1 \<and> j < int (length a2) \<and> segment a1 i = Some ''?'' \<longrightarrow>
      nameMatch a1 i a2 j) \<and>
   (i < int (length a1) \<and> j = int (length a2) - 1 \<and> segment a2 j = Some ''?'' \<longrightarrow>
      nameMatch a1 i a2 j) \<and>
   (i < int (length a1) - 1 \<and> j < int (length a2) \<and> segment a1 i = Some ''?'' \<longrightarrow>
      nameMatch a1 i a2 j =
        (\<exists>k. j \<le> k \<and> k < int (length a2) \<and> nameMatch a1 (i + 1) a2 k)) \<and>
   (i < int (length a1) \<and> j < int (length a2) - 1 \<and> segment a2 j = Some ''?'' \<longrightarrow>
      nameMatch a1 i a2 j =
        (\<exists>k. i \<le> k \<and> k < int (length a1) \<and> nameMatch a1 k a2 (j + 1)))"
  using namesMatch_tests nameMatch_last_left [of i a1 j a2]
    nameMatch_trailing_right [of i a1 j a2] nameMatch_inner_left [of i a1 j a2]
    nameMatch_inner_right_any [of i a1 j a2]
  by blast

text \<open>
  Witness for C1: each of the four wildcard cases at a concrete pair of names. The names
  are \<^verbatim>\<open>/ns/?\<close> against \<^verbatim>\<open>/ns/a\<close> at index 2 (trailing wildcard on the left), the same
  swapped (on the right), \<^verbatim>\<open>/?/a\<close> against \<^verbatim>\<open>/a\<close> at index 1 (inner wildcard on the
  left, which here stands for no segment at all) and the same swapped.
\<close>

theorem nameMatch_documented_tests_witness:
  "nameMatch [[], ''ns'', ''?''] 2 [[], ''ns'', ''a''] 2 \<and>
   nameMatch [[], ''ns'', ''a''] 2 [[], ''ns'', ''?''] 2 \<and>
   nameMatch [[], ''?'', ''a''] 2 [[], ''a''] 1 \<and>
   nameMatch [[], ''?'', ''a''] 1 [[], ''a''] 1 \<and>
   nameMatch [[], ''a''] 1 [[], ''?'', ''a''] 2 \<and>
   nameMatch [[], ''a''] 1 [[], ''?'', ''a''] 1"
proof -
  have q2: "segment [[], ''ns'', ''?''] 2 = Some ''?''"
    by (simp add: segment_def)
  have q1: "segment [[], ''?'', ''a''] 1 = Some ''?''"
    by (simp add: segment_def)
  have tail1: "nameMatch [[], ''?'', ''a''] 2 [[], ''a''] 1"
    by code_simp
  have tail2: "nameMatch [[], ''a''] 1 [[], ''?'', ''a''] 2"
    by code_simp
  have a: "nameMatch [[], ''ns'', ''?''] 2 [[], ''ns'', ''a''] 2"
    using nameMatch_documented_tests [of 2 "[[], ''ns'', ''?'']" 2 "[[], ''ns'', ''a'']"] q2
    by simp
  have b: "nameMatch [[], ''ns'', ''a''] 2 [[], ''ns'', ''?''] 2"
    using nameMatch_documented_tests [of 2 "[[], ''ns'', ''a'']" 2 "[[], ''ns'', ''?'']"] q2
    by simp
  have c: "nameMatch [[], ''?'', ''a''] 1 [[], ''a''] 1"
    using nameMatch_documented_tests [of 1 "[[], ''?'', ''a'']" 1 "[[], ''a'']"] q1 tail1
    by auto
  have d: "nameMatch [[], ''a''] 1 [[], ''?'', ''a''] 1"
    using nameMatch_documented_tests [of 1 "[[], ''a'']" 1 "[[], ''?'', ''a'']"] q1 tail2
    by auto
  from a b c d tail1 tail2 show ?thesis by blast
qed

text \<open>
  Counterexample to C1 as stated. At the inner \<^verbatim>\<open>?\<close> of \<^verbatim>\<open>/?/a\<close>, matched against the
  last segment of \<^verbatim>\<open>/a\<close> (the third documented test pair), the matcher succeeds, while
  no way of letting the \<^verbatim>\<open>?\<close> stand for one or more segments does.
\<close>

theorem nameMatch_inner_wildcard_counterexample:
  "split ''/?/a'' CHR ''/'' = [[], ''?'', ''a''] \<and> split ''/a'' CHR ''/'' = [[], ''a''] \<and>
   nameMatch [[], ''?'', ''a''] 1 [[], ''a''] 1 \<and>
   \<not> wildcard_takes_one_or_more [[], ''?'', ''a''] 1 [[], ''a''] 1"
  by code_simp


subsection \<open>Termination\<close>

lemma nameMatch_call_decreases:
  "nameMatch_rel callee caller \<Longrightarrow> remaining callee < remaining caller"
  by (erule nameMatch_rel.cases) (auto simp: remaining_def)

lemma remaining_first:
  "i < int (length a1) \<Longrightarrow> remaining (a1, i, a2, j) = Suc (remaining (a1, i + 1, a2, j))"
  by (simp add: remaining_def)

lemma remaining_second:
  "j < int (length a2) \<Longrightarrow> remaining (a1, i, a2, j) = Suc (remaining (a1, i, a2, j + 1))"
  by (simp add: remaining_def)

text \<open>
  The increment is exact from \<open>- 2 ^ 53\<close> up to \<open>2 ^ 53\<close>. At \<open>- 2 ^ 54\<close> the sum
  \<open>- 2 ^ 54 + 1\<close> lies halfway between the numbers \<open>- 2 ^ 54\<close> and \<open>- 2 ^ 54 + 2\<close> and is
  rounded to the first, whose significand is even.
\<close>

lemma increment_exact: "- (2 ^ 53) \<le> i \<Longrightarrow> i < 2 ^ 53 \<Longrightarrow> increment i = i + 1"
  by (auto simp: increment_def nearestDouble_def)

lemma bitLength_54: "bitLength (2 ^ 54 - 1) = 54"
  by (simp add: bitLength.simps)

lemma increment_stuck: "increment (- (2 ^ 54)) = - (2 ^ 54)"
  using bitLength_54 by (simp add: increment_def nearestDouble_def Let_def)

text \<open>
  At the start indices \<open>- 2 ^ 54\<close> both reads are outside the arrays and yield
  \<^verbatim>\<open>undefined\<close>, so the round of the outer loop ends with \<^verbatim>\<open>++i, ++j\<close>, which leaves both
  indices where they were: no amount of fuel is enough.
\<close>

lemma nameMatchNum_stuck:
  "nameMatchNum n [''a''] (- (2 ^ 54)) [''a''] (- (2 ^ 54)) = None"
proof (induction n)
  case 0
  show ?case by simp
next
  case (Suc n)
  then show ?case using increment_stuck by (simp add: segment_def)
qed

text \<open>
  From start indices that are not below \<open>- 2 ^ 53\<close> every index that is incremented is
  below a length, so every increment is exact, and the function with the arithmetic of
  the source returns what \<open>nameMatch\<close> returns, on twice the remaining segments and one
  of fuel. The two inner loops return whether a call at one of their indices succeeds.
\<close>

lemma nameMatchNum_exact:
  assumes len1: "int (length a1) \<le> 2 ^ 53" and len2: "int (length a2) \<le> 2 ^ 53"
  shows "(\<forall>i j. - (2 ^ 53) \<le> i \<longrightarrow> - (2 ^ 53) \<le> j \<longrightarrow> 2 * remaining (a1, i, a2, j) < n \<longrightarrow>
            nameMatchNum n a1 i a2 j = Some (nameMatch a1 i a2 j)) \<and>
         (\<forall>i k. - (2 ^ 53) \<le> i \<longrightarrow> - (2 ^ 53) \<le> k \<longrightarrow> 2 * remaining (a1, i, a2, k) + 2 \<le> n \<longrightarrow>
            scanSecond n a1 i a2 k =
              Some (\<exists>k'. k \<le> k' \<and> k' < int (length a2) \<and> nameMatch a1 i a2 k')) \<and>
         (\<forall>k j. - (2 ^ 53) \<le> k \<longrightarrow> - (2 ^ 53) \<le> j \<longrightarrow> 2 * remaining (a1, k, a2, j) + 2 \<le> n \<longrightarrow>
            scanFirst n a1 k a2 j =
              Some (\<exists>k'. k \<le> k' \<and> k' < int (length a1) \<and> nameMatch a1 k' a2 j))"
proof (induction n)
  case 0
  show ?case by simp
next
  case (Suc n)
  note ih_match = Suc.IH [THEN conjunct1, rule_format]
  note ih_second = Suc.IH [THEN conjunct2, THEN conjunct1, rule_format]
  note ih_first = Suc.IH [THEN conjunct2, THEN conjunct2, rule_format]
  have m: "nameMatchNum (Suc n) a1 i a2 j = Some (nameMatch a1 i a2 j)"
    if lo: "- (2 ^ 53) \<le> i" "- (2 ^ 53) \<le> j" and fuel: "2 * remaining (a1, i, a2, j) < Suc n"
    for i j
  proof (cases "i < int (length a1) \<and> j < int (length a2)")
    case False
    then have "nameMatchNum (Suc n) a1 i a2 j = Some (i = int (length a1) \<and> j = int (length a2))"
      by (simp only: nameMatchNum.simps if_False)
    then show ?thesis
      by (simp only: nameMatch_outside [OF False])
  next
    case inside: True
    then have inc: "increment i = i + 1" "increment j = j + 1"
      using lo len1 len2 by (simp_all add: increment_exact)
    show ?thesis
    proof (cases "segment a1 i = Some ''?''")
      case q1: True
      show ?thesis
      proof (cases "i = int (length a1) - 1")
        case True
        with inside q1 show ?thesis by (simp add: nameMatch_last_left)
      next
        case False
        with inside have lt: "i < int (length a1) - 1" by simp
        have "2 * remaining (a1, i + 1, a2, j) + 2 \<le> n"
          using fuel inside remaining_first [of i a1 a2 j] by simp
        then have "scanSecond n a1 (i + 1) a2 j =
            Some (\<exists>k'. j \<le> k' \<and> k' < int (length a2) \<and> nameMatch a1 (i + 1) a2 k')"
          using lo by (intro ih_second) simp_all
        with inside q1 False lt inc show ?thesis
          by (simp add: nameMatch_inner_left)
      qed
    next
      case n1: False
      show ?thesis
      proof (cases "segment a2 j = Some ''?''")
        case q2: True
        show ?thesis
        proof (cases "j = int (length a2) - 1")
          case True
          with inside n1 q2 show ?thesis by (simp add: nameMatch_last_right)
        next
          case False
          with inside have lt: "j < int (length a2) - 1" by simp
          have "2 * remaining (a1, i, a2, j + 1) + 2 \<le> n"
            using fuel inside remaining_second [of j a2 a1 i] by simp
          then have "scanFirst n a1 i a2 (j + 1) =
              Some (\<exists>k'. i \<le> k' \<and> k' < int (length a1) \<and> nameMatch a1 k' a2 (j + 1))"
            using lo by (intro ih_first) simp_all
          with inside n1 q2 False lt inc show ?thesis
            by (simp add: nameMatch_inner_right)
        qed
      next
        case n2: False
        show ?thesis
        proof (cases "segment a1 i = segment a2 j")
          case False
          with inside n1 n2 show ?thesis by (simp add: nameMatch_plain)
        next
          case True
          have "2 * remaining (a1, i + 1, a2, j + 1) < n"
            using fuel inside remaining_first [of i a1 a2 j]
              remaining_second [of j a2 a1 "i + 1"] by simp
          then have "nameMatchNum n a1 (i + 1) a2 (j + 1) =
              Some (nameMatch a1 (i + 1) a2 (j + 1))"
            using lo by (intro ih_match) simp_all
          with inside n1 n2 True inc show ?thesis
            by (simp add: nameMatch_plain)
        qed
      qed
    qed
  qed
  have s: "scanSecond (Suc n) a1 i a2 k =
      Some (\<exists>k'. k \<le> k' \<and> k' < int (length a2) \<and> nameMatch a1 i a2 k')"
    if lo: "- (2 ^ 53) \<le> i" "- (2 ^ 53) \<le> k"
      and fuel: "2 * remaining (a1, i, a2, k) + 2 \<le> Suc n"
    for i k
  proof (cases "k < int (length a2)")
    case False
    then show ?thesis by auto
  next
    case inside: True
    then have inc: "increment k = k + 1"
      using lo len2 by (simp add: increment_exact)
    have "2 * remaining (a1, i, a2, k) < n"
      using fuel by simp
    then have here: "nameMatchNum n a1 i a2 k = Some (nameMatch a1 i a2 k)"
      using lo by (intro ih_match) simp_all
    show ?thesis
    proof (cases "nameMatch a1 i a2 k")
      case True
      with inside here show ?thesis by auto
    next
      case False
      have "2 * remaining (a1, i, a2, k + 1) + 2 \<le> n"
        using fuel inside remaining_second [of k a2 a1 i] by simp
      then have "scanSecond n a1 i a2 (k + 1) =
          Some (\<exists>k'. k + 1 \<le> k' \<and> k' < int (length a2) \<and> nameMatch a1 i a2 k')"
        using lo by (intro ih_second) simp_all
      moreover have "(\<exists>k'. k + 1 \<le> k' \<and> k' < int (length a2) \<and> nameMatch a1 i a2 k') =
          (\<exists>k'. k \<le> k' \<and> k' < int (length a2) \<and> nameMatch a1 i a2 k')"
        using False by (metis add1_zle_eq order_le_less)
      ultimately show ?thesis
        using inside here False inc by simp
    qed
  qed
  have f: "scanFirst (Suc n) a1 k a2 j =
      Some (\<exists>k'. k \<le> k' \<and> k' < int (length a1) \<and> nameMatch a1 k' a2 j)"
    if lo: "- (2 ^ 53) \<le> k" "- (2 ^ 53) \<le> j"
      and fuel: "2 * remaining (a1, k, a2, j) + 2 \<le> Suc n"
    for k j
  proof (cases "k < int (length a1)")
    case False
    then show ?thesis by auto
  next
    case inside: True
    then have inc: "increment k = k + 1"
      using lo len1 by (simp add: increment_exact)
    have "2 * remaining (a1, k, a2, j) < n"
      using fuel by simp
    then have here: "nameMatchNum n a1 k a2 j = Some (nameMatch a1 k a2 j)"
      using lo by (intro ih_match) simp_all
    show ?thesis
    proof (cases "nameMatch a1 k a2 j")
      case True
      with inside here show ?thesis by auto
    next
      case False
      have "2 * remaining (a1, k + 1, a2, j) + 2 \<le> n"
        using fuel inside remaining_first [of k a1 a2 j] by simp
      then have "scanFirst n a1 (k + 1) a2 j =
          Some (\<exists>k'. k + 1 \<le> k' \<and> k' < int (length a1) \<and> nameMatch a1 k' a2 j)"
        using lo by (intro ih_first) simp_all
      moreover have "(\<exists>k'. k + 1 \<le> k' \<and> k' < int (length a1) \<and> nameMatch a1 k' a2 j) =
          (\<exists>k'. k \<le> k' \<and> k' < int (length a1) \<and> nameMatch a1 k' a2 j)"
        using False by (metis add1_zle_eq order_le_less)
      ultimately show ?thesis
        using inside here False inc by simp
    qed
  qed
  from m s f show ?case by blast
qed

text \<open>
  Claim C9, as amended. \<^verbatim>\<open>_nameMatch\<close> terminates on every pair of segment arrays (an
  array has fewer than \<open>2 ^ 32\<close> elements) and every pair of integer start indices that
  are not below \<open>- 2 ^ 53\<close>: with the arithmetic of the source it returns a boolean once
  the fuel exceeds twice the remaining segments \<open>(len1 - k1) + (len2 - k2)\<close>, the boolean
  that the function over exact integers gives, and every call that the body makes (the
  relation \<open>nameMatch_rel\<close> relates the arguments of a call to the arguments of its
  caller) has strictly fewer remaining segments than its caller.
\<close>

theorem nameMatch_terminates:
  assumes "- (2 ^ 53) \<le> k1" and "- (2 ^ 53) \<le> k2"
    and "length a1 < 2 ^ 32" and "length a2 < 2 ^ 32"
    and "2 * remaining (a1, k1, a2, k2) < n"
  shows "nameMatchNum n a1 k1 a2 k2 = Some (nameMatch a1 k1 a2 k2) \<and>
         (nameMatch_rel callee (a1, k1, a2, k2) \<longrightarrow>
            remaining callee < remaining (a1, k1, a2, k2))"
proof -
  have "int (length a1) \<le> 2 ^ 53" and "int (length a2) \<le> 2 ^ 53"
    using assms(3,4) by simp_all
  then show ?thesis
    using nameMatchNum_exact [of a1 a2 n] assms(1,2,5) nameMatch_call_decreases by blast
qed

text \<open>
  Witness for C9: matching \<^verbatim>\<open>["?", "a"]\<close> against \<^verbatim>\<open>["b"]\<close> from \<open>(0, 0)\<close>, with 3
  remaining segments, returns false on 7 of fuel, and it calls the matcher at \<open>(1, 0)\<close>,
  with 2 remaining segments.
\<close>

theorem nameMatch_terminates_witness:
  "nameMatchNum 7 [''?'', ''a''] 0 [''b''] 0 = Some False \<and>
   nameMatch_rel ([''?'', ''a''], 1, [''b''], 0) ([''?'', ''a''], 0, [''b''], 0) \<and>
   remaining ([''?'', ''a''], 1, [''b''], 0) < remaining ([''?'', ''a''], 0, [''b''], 0)"
proof -
  have call: "nameMatch_rel ([''?'', ''a''], 1, [''b''], 0) ([''?'', ''a''], 0, [''b''], 0)"
    using nameMatch_rel.intros(1) [of 0 "[''?'', ''a'']" 0 "[''b'']" 0]
    by (simp add: segment_def)
  have res: "nameMatch [''?'', ''a''] 0 [''b''] 0 = False"
    by code_simp
  have fuel: "2 * remaining ([''?'', ''a''], 0, [''b''], 0) < 7"
    by (simp add: remaining_def)
  from nameMatch_terminates
    [of 0 0 "[''?'', ''a'']" "[''b'']" 7 "([''?'', ''a''], 1, [''b''], 0)", OF _ _ _ _ fuel]
  show ?thesis using call res by simp
qed

text \<open>
  Counterexample to C9 as stated: the segment arrays \<^verbatim>\<open>["a"]\<close> and \<^verbatim>\<open>["a"]\<close> with both
  start indices \<open>- 2 ^ 54\<close>. The number \<open>- 2 ^ 54 + 1\<close> does not exist, the sum is rounded
  back to \<open>- 2 ^ 54\<close>, and the outer loop makes round after round at the same indices: the
  function returns on no amount of fuel.
\<close>

theorem nameMatch_terminates_counterexample:
  "increment (- (2 ^ 54)) = - (2 ^ 54) \<and>
   (\<forall>n. nameMatchNum n [''a''] (- (2 ^ 54)) [''a''] (- (2 ^ 54)) = None)"
  using increment_stuck nameMatchNum_stuck by blast

section \<open>Properties of the request body\<close>

lemma truthy_iff: "truthy t = (t = TTrue)"
  by (cases t) simp_all

lemma nullish_iff: "nullish t = (t = TNull \<or> t = TUndefined)"
  by (cases t) simp_all

lemma launchFiles_launch:
  "launch (launchFiles ds data) =
     launch data @
       map (\<lambda>d1. (name d1, argsObject (children d1) emptyObject))
         (filter (\<lambda>d1. selected d1 = TTrue) ds)"
  by (induction ds arbitrary: data) (auto simp: truthy_iff nullish_iff)

lemma launchFiles_discard:
  "discard (launchFiles ds data) =
     discard data @ map name (filter (\<lambda>d1. selected d1 = TFalse) ds)"
proof (induction ds arbitrary: data)
  case Nil
  then show ?case by simp
next
  case (Cons d1 ds)
  then show ?case by (cases "selected d1") simp_all
qed

text \<open>
  Claim C4. The request body partitions the launch files by their tri-state
  \<^verbatim>\<open>selected\<close>: the launch list has one entry \<open>(name, args)\<close> for each child whose
  \<^verbatim>\<open>selected\<close> is true, in order, and nothing else; the discard list has the name of each
  child whose \<^verbatim>\<open>selected\<close> is false, in order, and nothing else. A child whose \<^verbatim>\<open>selected\<close>
  is \<^verbatim>\<open>null\<close> or \<^verbatim>\<open>undefined\<close> is in neither filter, so it is in neither list.
\<close>

theorem cgRequestData_partition:
  "launch (cgRequestData fm) =
     map (\<lambda>d1. (name d1, argsObject (children d1) emptyObject))
       (filter (\<lambda>d1. selected d1 = TTrue) (fm_children fm)) \<and>
   discard (cgRequestData fm) =
     map name (filter (\<lambda>d1. selected d1 = TFalse) (fm_children fm))"
  by (simp add: cgRequestData_def launchFiles_launch launchFiles_discard)

lemma selectedValue_find:
  "selectedValue ds =
     (case find (\<lambda>d3. selected d3 = TTrue) ds of
        None \<Rightarrow> JNull
      | Some d3 \<Rightarrow> if resolved d3 then JString (name d3) else val d3)"
  by (induction ds) (simp_all add: truthy_iff)

lemma argValue_specified: "argValue d2 = specified_arg_value d2"
  by (simp add: argValue_def specified_arg_value_def selectedValue_find truthy_iff)

lemma assign_other: "n \<noteq> key \<Longrightarrow> own_props (assign key v obj) n = own_props obj n"
  by (simp add: assign_def)

lemma assign_own:
  "''__proto__'' \<noteq> key \<Longrightarrow> own_props (assign key v obj) = (own_props obj)(key \<mapsto> v)"
  by (auto simp: assign_def)

lemma argsObject_other:
  "n \<notin> name ` set ds \<Longrightarrow> own_props (argsObject ds args) n = own_props args n"
  by (induction ds arbitrary: args) (simp_all add: assign_other)

lemma argsObject_dom:
  "''__proto__'' \<notin> name ` set ds \<Longrightarrow>
   dom (own_props (argsObject ds args)) = dom (own_props args) \<union> name ` set ds"
  by (induction ds arbitrary: args) (auto simp: assign_own)

lemma argsObject_distinct:
  "distinct (map name ds) \<Longrightarrow> ''__proto__'' \<notin> name ` set ds \<Longrightarrow> d2 \<in> set ds \<Longrightarrow>
   own_props (argsObject ds args) (name d2) = Some (argValue d2)"
proof (induction ds arbitrary: args)
  case Nil
  then show ?case by simp
next
  case (Cons d ds)
  show ?case
  proof (cases "d2 = d")
    case True
    with Cons.prems show ?thesis by (simp add: argsObject_other assign_own)
  next
    case False
    with Cons show ?thesis by auto
  qed
qed

text \<open>
  Claim C5, as amended. For every selected launch file of the feature model whose arg
  children have pairwise distinct names, none of them the name \<^verbatim>\<open>__proto__\<close>, the launch
  list has the entry of that launch file, and its args object has exactly the names of
  the arg children as the keys of its own properties and maps the name of each arg child
  to: the name of its first value child with \<^verbatim>\<open>selected\<close> true if that value is resolved,
  the \<^verbatim>\<open>value\<close> field of that child if it is unresolved, and \<^verbatim>\<open>null\<close> when the arg is not
  selected or none of its values is.
\<close>

theorem cgRequestData_args:
  assumes "d1 \<in> set (fm_children fm)" and "selected d1 = TTrue"
    and "distinct (map name (children d1))"
    and "''__proto__'' \<notin> name ` set (children d1)"
  shows "(name d1, argsObject (children d1) emptyObject) \<in> set (launch (cgRequestData fm)) \<and>
         dom (own_props (argsObject (children d1) emptyObject)) = name ` set (children d1) \<and>
         card (dom (own_props (argsObject (children d1) emptyObject))) = length (children d1) \<and>
         (\<forall>d2 \<in> set (children d1).
            own_props (argsObject (children d1) emptyObject) (name d2) =
              Some (specified_arg_value d2))"
proof -
  have "(name d1, argsObject (children d1) emptyObject) \<in> set (launch (cgRequestData fm))"
    using assms(1,2) by (simp add: cgRequestData_def launchFiles_launch image_iff) blast
  moreover have d: "dom (own_props (argsObject (children d1) emptyObject)) =
      name ` set (children d1)"
    using assms(4) by (simp add: argsObject_dom emptyObject_def)
  moreover have "card (name ` set (children d1)) = length (children d1)"
    using assms(3) by (metis distinct_card length_map set_map)
  moreover have "\<forall>d2 \<in> set (children d1).
      own_props (argsObject (children d1) emptyObject) (name d2) =
        Some (specified_arg_value d2)"
    using assms(3,4) by (simp add: argsObject_distinct argValue_specified)
  ultimately show ?thesis by simp
qed

text \<open>
  Witness for C5: one selected launch file with a selected arg \<^verbatim>\<open>x\<close>, whose second value
  is the selected one and resolved, and an arg \<^verbatim>\<open>y\<close> that is not selected.
\<close>

theorem cgRequestData_args_witness:
  "launch (cgRequestData \<lparr>fm_id = ''p'', fm_children =
      [Feature ''a.launch'' TTrue True JNull
        [Feature ''x'' TTrue True JNull
           [Feature ''1'' TFalse True JNull [], Feature ''2'' TTrue True JNull []],
         Feature ''y'' TNull True JNull [Feature ''3'' TNull True JNull []]]]\<rparr>)
     = [(''a.launch'',
         \<lparr>own_props = [''x'' \<mapsto> JString ''2'', ''y'' \<mapsto> JNull], proto_null = False\<rparr>)]"
proof -
  let ?x = "Feature ''x'' TTrue True JNull
              [Feature ''1'' TFalse True JNull [], Feature ''2'' TTrue True JNull []]"
  let ?y = "Feature ''y'' TNull True JNull [Feature ''3'' TNull True JNull []]"
  let ?d1 = "Feature ''a.launch'' TTrue True JNull [?x, ?y]"
  let ?fm = "\<lparr>fm_id = ''p'', fm_children = [?d1]\<rparr>"
  have all: "\<forall>d2 \<in> set (children ?d1).
      own_props (argsObject (children ?d1) emptyObject) (name d2) =
        Some (specified_arg_value d2)"
    and keys: "dom (own_props (argsObject (children ?d1) emptyObject)) =
      name ` set (children ?d1)"
    using cgRequestData_args [of ?d1 ?fm] by simp_all
  have x: "own_props (argsObject [?x, ?y] emptyObject) ''x'' = Some (JString ''2'')"
    using all by (simp add: specified_arg_value_def)
  have y: "own_props (argsObject [?x, ?y] emptyObject) ''y'' = Some JNull"
    using all by (simp add: specified_arg_value_def)
  have own: "own_props (argsObject [?x, ?y] emptyObject) =
      [''x'' \<mapsto> JString ''2'', ''y'' \<mapsto> JNull]"
  proof (rule ext)
    fix n
    show "own_props (argsObject [?x, ?y] emptyObject) n =
        [''x'' \<mapsto> JString ''2'', ''y'' \<mapsto> JNull] n"
    proof (cases "n = ''x'' \<or> n = ''y''")
      case True
      with x y show ?thesis by auto
    next
      case False
      then have "n \<notin> dom (own_props (argsObject [?x, ?y] emptyObject))"
        using keys by simp
      with False show ?thesis by (auto simp: domIff)
    qed
  qed
  have proto: "proto_null (argsObject [?x, ?y] emptyObject) = False"
    by (simp add: assign_def emptyObject_def)
  have "argsObject [?x, ?y] emptyObject =
      \<lparr>own_props = [''x'' \<mapsto> JString ''2'', ''y'' \<mapsto> JNull], proto_null = False\<rparr>"
    using own proto by (cases "argsObject [?x, ?y] emptyObject") simp
  then show ?thesis
    by (simp add: cgRequestData_def)
qed

text \<open>
  Counterexamples to C5 as stated. First, a selected launch file with two arg children
  of the same name \<^verbatim>\<open>x\<close>: the first is selected with the selected, resolved value \<^verbatim>\<open>a\<close>,
  the second is not selected. The args object has the single entry of the second arg,
  so the name of the first arg is not mapped to the name of its selected value. Second,
  a selected launch file with the single arg \<^verbatim>\<open>__proto__\<close>, selected with the selected,
  resolved value \<^verbatim>\<open>a\<close>: the args object has no entry for it.
\<close>

theorem cgRequestData_args_counterexample:
  "specified_arg_value (Feature ''x'' TTrue True JNull [Feature ''a'' TTrue True JNull []])
     = JString ''a'' \<and>
   map fst
     (launch (cgRequestData \<lparr>fm_id = ''p'', fm_children =
        [Feature ''a.launch'' TTrue True JNull
          [Feature ''x'' TTrue True JNull [Feature ''a'' TTrue True JNull []],
           Feature ''x'' TNull True JNull []]]\<rparr>))
     = [''a.launch''] \<and>
   own_props (snd (hd
     (launch (cgRequestData \<lparr>fm_id = ''p'', fm_children =
        [Feature ''a.launch'' TTrue True JNull
          [Feature ''x'' TTrue True JNull [Feature ''a'' TTrue True JNull []],
           Feature ''x'' TNull True JNull []]]\<rparr>)))) ''x''
     = Some JNull \<and>
   map fst
     (launch (cgRequestData \<lparr>fm_id = ''p'', fm_children =
        [Feature ''a.launch'' TTrue True JNull
          [Feature ''__proto__'' TTrue True JNull [Feature ''a'' TTrue True JNull []]]]\<rparr>))
     = [''a.launch''] \<and>
   own_props (snd (hd
     (launch (cgRequestData \<lparr>fm_id = ''p'', fm_children =
        [Feature ''a.launch'' TTrue True JNull
          [Feature ''__proto__'' TTrue True JNull [Feature ''a'' TTrue True JNull []]]]\<rparr>))))
     = Map.empty"
  by (simp add: cgRequestData_def specified_arg_value_def argValue_def assign_def
      emptyObject_def)

section \<open>Properties of the selection handlers of the feature tree\<close>

lemma setValueSelected_ok:
  "setValueSelected ask_user pn d ask = (True, d') \<Longrightarrow>
   data_selected d' = TTrue \<and> nid d' = nid d"
  by (auto simp: setValueSelected_def split: if_splits option.splits)

lemma setValueSelected_cancelled:
  "setValueSelected ask_user pn d ask = (False, d') \<Longrightarrow> d' = d"
  by (auto simp: setValueSelected_def split: if_splits option.splits)

lemma setValueSelected_nid:
  "setValueSelected ask_user pn d ask = (ok, d') \<Longrightarrow> nid d' = nid d"
  by (auto simp: setValueSelected_def split: if_splits option.splits)

text \<open>The branch of a selected arg, with the index made explicit.\<close>

lemma propagateArgSelection_selected:
  assumes "truthy (data_selected source)"
    and "propagateArgSelection ask_user source = Inr (ok, source')"
  obtains i d where "i < length (arg_children source)"
    and "setValueSelected ask_user (ui_name source)
           ((arg_children source ! i)\<lparr>ui_selected := TFalse, data_selected := TFalse\<rparr>) False
         = (ok, d)"
    and "source' = source\<lparr>arg_children :=
           (map (\<lambda>d. d\<lparr>ui_selected := TFalse, data_selected := TFalse\<rparr>)
              (arg_children source))[i := d],
           ui_previousValue := (if ok then Some (nid d) else ui_previousValue source)\<rparr>"
proof -
  let ?vals = "map (\<lambda>d. d\<lparr>ui_selected := TFalse, data_selected := TFalse\<rparr>)
                   (arg_children source)"
  define i where "i = selectionIndex source ?vals"
  from assms have rng: "0 \<le> i" "i < int (length ?vals)"
    by (auto simp: propagateArgSelection_def Let_def i_def split: if_splits)
  obtain ok' d where sv:
    "setValueSelected ask_user (ui_name source) (?vals ! nat i) False = (ok', d)"
    by (cases "setValueSelected ask_user (ui_name source) (?vals ! nat i) False")
  from assms rng sv have res: "ok = ok'"
    "source' = source\<lparr>arg_children := ?vals[nat i := d],
       ui_previousValue := (if ok then Some (nid d) else ui_previousValue source)\<rparr>"
    by (auto simp: propagateArgSelection_def Let_def i_def split: if_splits)
  from rng have lt: "nat i < length (arg_children source)" by simp
  with sv res show thesis
    by (intro that [of "nat i" d]) simp_all
qed

lemma propagateArgSelection_unselected:
  assumes "\<not> truthy (data_selected source)" and "arg_children source \<noteq> []"
  shows "propagateArgSelection ask_user source =
           Inr (True, source\<lparr>arg_children :=
                  map (\<lambda>d. d\<lparr>data_selected := data_selected source,
                                ui_selected := data_selected source\<rparr>)
                      (arg_children source)\<rparr>)"
  using assms by (simp add: propagateArgSelection_def)

lemma propagateArgSelection_keeps:
  assumes "propagateArgSelection ask_user source = Inr (ok, source')"
  shows "data_selected source' = data_selected source \<and>
         ui_selected source' = ui_selected source \<and>
         map nid (arg_children source') = map nid (arg_children source)"
proof (cases "truthy (data_selected source)")
  case False
  with assms show ?thesis
    by (auto simp: propagateArgSelection_def o_def split: if_splits)
next
  case True
  from True assms obtain i d where i: "i < length (arg_children source)"
    and sv: "setValueSelected ask_user (ui_name source)
               ((arg_children source ! i)\<lparr>ui_selected := TFalse, data_selected := TFalse\<rparr>) False
             = (ok, d)"
    and s': "source' = source\<lparr>arg_children :=
               (map (\<lambda>d. d\<lparr>ui_selected := TFalse, data_selected := TFalse\<rparr>)
                  (arg_children source))[i := d],
               ui_previousValue := (if ok then Some (nid d) else ui_previousValue source)\<rparr>"
    by (rule propagateArgSelection_selected)
  have "nid d = nid (arg_children source ! i)"
    using setValueSelected_nid [OF sv] by simp
  with i have "map nid ((map (\<lambda>d. d\<lparr>ui_selected := TFalse, data_selected := TFalse\<rparr>)
                  (arg_children source))[i := d]) = map nid (arg_children source)"
    by (simp add: list_eq_iff_nth_eq nth_list_update)
  with s' show ?thesis by simp
qed

text \<open>
  Claim C6. XOR/radio invariant: for every arg node with \<^verbatim>\<open>selected\<close> true and a
  non-empty list of value children, when \<^verbatim>\<open>propagateArgSelection\<close> returns true (it
  completes and the prompt of \<^verbatim>\<open>setValueSelected\<close> is not cancelled), exactly one of
  the value children has \<^verbatim>\<open>data.selected === true\<close> and every other value child has
  \<^verbatim>\<open>data.selected === false\<close>.
\<close>

theorem propagateArgSelection_radio:
  assumes "data_selected source = TTrue" and "arg_children source \<noteq> []"
    and "propagateArgSelection ask_user source = Inr (True, source')"
  shows "length (arg_children source') = length (arg_children source) \<and>
         (\<exists>i < length (arg_children source').
            data_selected (arg_children source' ! i) = TTrue \<and>
            (\<forall>j < length (arg_children source').
               j \<noteq> i \<longrightarrow> data_selected (arg_children source' ! j) = TFalse))"
proof -
  from assms(1) have "truthy (data_selected source)" by simp
  from this assms(3) obtain i d where i: "i < length (arg_children source)"
    and sv: "setValueSelected ask_user (ui_name source)
               ((arg_children source ! i)\<lparr>ui_selected := TFalse, data_selected := TFalse\<rparr>) False
             = (True, d)"
    and s': "source' = source\<lparr>arg_children :=
               (map (\<lambda>d. d\<lparr>ui_selected := TFalse, data_selected := TFalse\<rparr>)
                  (arg_children source))[i := d],
               ui_previousValue := (if True then Some (nid d) else ui_previousValue source)\<rparr>"
    by (rule propagateArgSelection_selected)
  have d: "data_selected d = TTrue"
    using setValueSelected_ok [OF sv] by simp
  have len: "length (arg_children source') = length (arg_children source)"
    using s' by simp
  have "data_selected (arg_children source' ! i) = TTrue"
    using s' i d by simp
  moreover have "\<forall>j < length (arg_children source').
      j \<noteq> i \<longrightarrow> data_selected (arg_children source' ! j) = TFalse"
    using s' by (simp add: nth_list_update)
  ultimately show ?thesis using len i by auto
qed

text \<open>
  Witness for C6: a selected arg with three resolved values, the second of which was
  selected before (\<^verbatim>\<open>ui.previousValue\<close> is its \<^verbatim>\<open>id\<close>); no prompt is shown.
\<close>

theorem propagateArgSelection_radio_witness:
  "map data_selected (arg_children (snd (projr (propagateArgSelection (\<lambda>m. None)
     \<lparr>nid = 2, data_selected = TTrue, ui_selected = TTrue, ui_name = ''x'',
      data_defaultValue = None, ui_previousValue = Some 4,
      arg_children =
        [\<lparr>nid = 3, data_selected = TTrue, ui_selected = TTrue, ui_name = ''a'',
          data_resolved = True, ui_value = None\<rparr>,
         \<lparr>nid = 4, data_selected = TNull, ui_selected = TNull, ui_name = ''b'',
          data_resolved = True, ui_value = None\<rparr>,
         \<lparr>nid = 5, data_selected = TTrue, ui_selected = TNull, ui_name = ''c'',
          data_resolved = True, ui_value = None\<rparr>]\<rparr>))))
   = [TFalse, TTrue, TFalse]"
proof -
  let ?source = "\<lparr>nid = 2, data_selected = TTrue, ui_selected = TTrue, ui_name = ''x'',
      data_defaultValue = None, ui_previousValue = Some 4,
      arg_children =
        [\<lparr>nid = 3, data_selected = TTrue, ui_selected = TTrue, ui_name = ''a'',
          data_resolved = True, ui_value = None\<rparr>,
         \<lparr>nid = 4, data_selected = TNull, ui_selected = TNull, ui_name = ''b'',
          data_resolved = True, ui_value = None\<rparr>,
         \<lparr>nid = 5, data_selected = TTrue, ui_selected = TNull, ui_name = ''c'',
          data_resolved = True, ui_value = None\<rparr>]\<rparr>"
  obtain source' where r: "propagateArgSelection (\<lambda>m. None) ?source = Inr (True, source')"
    by (simp add: propagateArgSelection_def selectionIndex_def setValueSelected_def)
  have "length (arg_children source') = length (arg_children ?source) \<and>
        (\<exists>i < length (arg_children source').
            data_selected (arg_children source' ! i) = TTrue \<and>
            (\<forall>j < length (arg_children source').
               j \<noteq> i \<longrightarrow> data_selected (arg_children source' ! j) = TFalse))"
    by (rule propagateArgSelection_radio [OF _ _ r]) simp_all
  moreover have "map data_selected (arg_children source') = [TFalse, TTrue, TFalse]"
    using r by (auto simp: propagateArgSelection_def selectionIndex_def setValueSelected_def)
  ultimately show ?thesis using r by simp
qed

lemma previousIndex_Some:
  "previousIndex p cs j0 = Some j \<Longrightarrow> j0 \<le> j \<and> j < j0 + length cs"
proof (induction cs arbitrary: j0)
  case Nil
  then show ?case by simp
next
  case (Cons c cs)
  show ?case
  proof (cases "nid c = p")
    case True
    with Cons.prems show ?thesis by simp
  next
    case False
    with Cons.prems have "previousIndex p cs (Suc j0) = Some j" by simp
    from Cons.IH [OF this] show ?thesis by simp
  qed
qed

lemma previousIndex_None:
  "previousIndex p cs j0 = None \<Longrightarrow> p \<notin> nid ` set cs"
  by (induction cs arbitrary: j0) (auto split: if_splits)

text \<open>
  A selected arg whose previously selected value is one of its children: the index is
  in the array, so the call returns.
\<close>

lemma propagateArgSelection_previous:
  assumes "truthy (data_selected source)" and "ui_previousValue source = Some p"
    and "p \<in> nid ` set (arg_children source)"
  shows "\<exists>ok source'. propagateArgSelection ask_user source = Inr (ok, source')"
proof -
  let ?vals = "map (\<lambda>d. d\<lparr>ui_selected := TFalse, data_selected := TFalse\<rparr>)
                   (arg_children source)"
  have "p \<in> nid ` set ?vals"
    using assms(3) by (force simp: image_iff)
  then obtain j where j: "previousIndex p ?vals 0 = Some j"
    using previousIndex_None [of p ?vals 0] by (cases "previousIndex p ?vals 0") auto
  from previousIndex_Some [OF j] have "j < length ?vals" by simp
  with j assms(2) have "0 \<le> selectionIndex source ?vals"
    "selectionIndex source ?vals < int (length ?vals)"
    by (simp_all add: selectionIndex_def)
  moreover have "arg_children source \<noteq> []"
    using assms(3) by auto
  ultimately show ?thesis
    using assms(1) by (auto simp: propagateArgSelection_def Let_def split: prod.splits)
qed

lemma selectedLaunchLoop_Inr:
  "selectedLaunchLoop ask_user ds = Inr ds' \<Longrightarrow>
   list_all2 (\<lambda>d d'. map nid (arg_children d') = map nid (arg_children d)) ds ds'"
proof (induction ds arbitrary: ds')
  case Nil
  then show ?case by simp
next
  case (Cons d ds)
  show ?case
  proof (cases "truthy (data_selected d)")
    case True
    with Cons.prems obtain es where es: "selectedLaunchLoop ask_user ds = Inr es" "ds' = d # es"
      by (auto split: sum.splits)
    with Cons.IH [OF es(1)] show ?thesis by simp
  next
    case False
    with Cons.prems obtain ok d' es where
      a: "propagateArgSelection ask_user (d\<lparr>ui_selected := TNull, data_selected := TNull\<rparr>)
            = Inr (ok, d')"
      and es: "selectedLaunchLoop ask_user ds = Inr es" "ds' = d' # es"
      by (auto split: sum.splits)
    from propagateArgSelection_keeps [OF a]
    have "map nid (arg_children d') = map nid (arg_children d)" by simp
    with Cons.IH [OF es(1)] es(2) show ?thesis by simp
  qed
qed

lemma selectedLaunchLoop_returns:
  "\<forall>d \<in> set ds. arg_children d \<noteq> [] \<Longrightarrow> \<exists>ds'. selectedLaunchLoop ask_user ds = Inr ds'"
proof (induction ds)
  case Nil
  then show ?case by simp
next
  case (Cons d ds)
  then obtain es where es: "selectedLaunchLoop ask_user ds = Inr es" by auto
  from Cons.prems have "arg_children d \<noteq> []" by simp
  then have "propagateArgSelection ask_user (d\<lparr>ui_selected := TNull, data_selected := TNull\<rparr>)
      = Inr (True, d\<lparr>ui_selected := TNull, data_selected := TNull,
               arg_children := map (\<lambda>c. c\<lparr>data_selected := TNull, ui_selected := TNull\<rparr>)
                                   (arg_children d)\<rparr>)"
    by (simp add: propagateArgSelection_def)
  with es show ?case by simp
qed

lemma unselectedLaunchLoop_returns:
  "\<forall>d \<in> set ds. arg_children d \<noteq> [] \<Longrightarrow> \<exists>ds'. unselectedLaunchLoop ask_user v ds = Inr ds'"
proof (induction ds)
  case Nil
  then show ?case by simp
next
  case (Cons d ds)
  then obtain es where es: "unselectedLaunchLoop ask_user v ds = Inr es" by auto
  from Cons.prems have "arg_children d \<noteq> []" by simp
  then have "propagateArgSelection ask_user (d\<lparr>ui_selected := TNull, data_selected := TNull\<rparr>)
      = Inr (True, d\<lparr>ui_selected := TNull, data_selected := TNull,
               arg_children := map (\<lambda>c. c\<lparr>data_selected := TNull, ui_selected := TNull\<rparr>)
                                   (arg_children d)\<rparr>)"
    by (simp add: propagateArgSelection_def)
  with es show ?case by simp
qed

lemma propagateRosLaunchSelection_keeps:
  "propagateRosLaunchSelection ask_user source = Inr source' \<Longrightarrow>
   data_selected source' = data_selected source \<and> ui_selected source' = ui_selected source"
  by (auto simp: propagateRosLaunchSelection_def split: if_splits sum.splits)

lemma propagateRosLaunchSelection_returns:
  "\<forall>d \<in> set (launch_children source). arg_children d \<noteq> [] \<Longrightarrow>
   \<exists>source'. propagateRosLaunchSelection ask_user source = Inr source'"
  using selectedLaunchLoop_returns [of "launch_children source" ask_user]
    unselectedLaunchLoop_returns [of "launch_children source" ask_user "data_selected source"]
  by (auto simp: propagateRosLaunchSelection_def)

lemma propagateRosLaunchSelection_selected_ids:
  assumes "truthy (data_selected source)"
    and "propagateRosLaunchSelection ask_user source = Inr source'"
  shows "list_all2 (\<lambda>d d'. map nid (arg_children d') = map nid (arg_children d))
           (launch_children source) (launch_children source')"
proof (cases "launch_children source = []")
  case True
  with assms show ?thesis by (simp add: propagateRosLaunchSelection_def)
next
  case False
  with assms obtain args where
    "selectedLaunchLoop ask_user (launch_children source) = Inr args"
    "source' = source\<lparr>launch_children := args\<rparr>"
    by (auto simp: propagateRosLaunchSelection_def split: sum.splits)
  with selectedLaunchLoop_Inr [of ask_user "launch_children source" args] show ?thesis
    by simp
qed

text \<open>
  What \<^verbatim>\<open>propagateValueSelection\<close> does before its last call: the launch file is
  selected, its args are as many as before and have the same value ids.
\<close>

lemma propagateValueSelection_first_step:
  assumes "(if \<not> truthy (data_selected roslaunch)
            then propagateRosLaunchSelection ask_user (roslaunch\<lparr>data_selected := TTrue\<rparr>)
            else Inr roslaunch) = Inr roslaunch1"
  shows "data_selected roslaunch1 = TTrue \<and>
         list_all2 (\<lambda>d d'. map nid (arg_children d') = map nid (arg_children d))
           (launch_children roslaunch) (launch_children roslaunch1)"
proof (cases "truthy (data_selected roslaunch)")
  case True
  with assms have "roslaunch1 = roslaunch" by simp
  with True show ?thesis
    by (simp add: truthy_iff list_all2_same)
next
  case False
  with assms have r: "propagateRosLaunchSelection ask_user (roslaunch\<lparr>data_selected := TTrue\<rparr>)
      = Inr roslaunch1" by simp
  from propagateRosLaunchSelection_keeps [OF r]
    propagateRosLaunchSelection_selected_ids [OF _ r]
  show ?thesis by simp
qed

text \<open>
  Claim C7. Upward propagation: for every value node whose \<^verbatim>\<open>data.selected\<close> is true (the
  value with index \<open>vi\<close> of the arg with index \<open>ai\<close> of a launch file), whenever
  \<^verbatim>\<open>propagateValueSelection\<close> returns, the parent arg has \<^verbatim>\<open>data.selected === true\<close> and
  the launch file has \<^verbatim>\<open>data.selected === true\<close>. It does return when every arg of the
  launch file has at least one value, which is what \<^verbatim>\<open>propagateArgSelection\<close> asserts.
\<close>

theorem propagateValueSelection_upward:
  assumes "ai < length (launch_children roslaunch)"
    and "vi < length (arg_children (launch_children roslaunch ! ai))"
    and "data_selected (arg_children (launch_children roslaunch ! ai) ! vi) = TTrue"
  shows "(\<forall>roslaunch'. propagateValueSelection ask_user roslaunch ai vi = Inr roslaunch' \<longrightarrow>
            data_selected roslaunch' = TTrue \<and>
            length (launch_children roslaunch') = length (launch_children roslaunch) \<and>
            data_selected (launch_children roslaunch' ! ai) = TTrue) \<and>
         ((\<forall>d \<in> set (launch_children roslaunch). arg_children d \<noteq> []) \<longrightarrow>
            (\<exists>roslaunch'. propagateValueSelection ask_user roslaunch ai vi = Inr roslaunch'))"
proof (intro conjI allI impI)
  fix roslaunch'
  assume r: "propagateValueSelection ask_user roslaunch ai vi = Inr roslaunch'"
  let ?first = "if \<not> truthy (data_selected roslaunch)
            then propagateRosLaunchSelection ask_user (roslaunch\<lparr>data_selected := TTrue\<rparr>)
            else Inr roslaunch"
  from r obtain roslaunch1 where f: "?first = Inr roslaunch1"
    by (cases ?first) (simp_all add: propagateValueSelection_def Let_def)
  let ?arg = "(launch_children roslaunch1 ! ai)
                \<lparr>ui_selected := TTrue, data_selected := TTrue,
                 ui_previousValue :=
                   Some (nid (arg_children (launch_children roslaunch ! ai) ! vi))\<rparr>"
  from r f obtain ok arg where a: "propagateArgSelection ask_user ?arg = Inr (ok, arg)"
    and r': "roslaunch' = roslaunch1\<lparr>launch_children := (launch_children roslaunch1)[ai := arg]\<rparr>"
    by (cases "propagateArgSelection ask_user ?arg")
       (auto simp: propagateValueSelection_def Let_def)
  from propagateValueSelection_first_step [OF f]
  have sel: "data_selected roslaunch1 = TTrue"
    and len: "length (launch_children roslaunch1) = length (launch_children roslaunch)"
    by (auto dest: list_all2_lengthD)
  from propagateArgSelection_keeps [OF a] have "data_selected arg = TTrue" by simp
  with r' sel len assms(1)
  show "data_selected roslaunch' = TTrue"
    "length (launch_children roslaunch') = length (launch_children roslaunch)"
    "data_selected (launch_children roslaunch' ! ai) = TTrue"
    by simp_all
next
  assume kids: "\<forall>d \<in> set (launch_children roslaunch). arg_children d \<noteq> []"
  let ?first = "if \<not> truthy (data_selected roslaunch)
            then propagateRosLaunchSelection ask_user (roslaunch\<lparr>data_selected := TTrue\<rparr>)
            else Inr roslaunch"
  have "\<exists>roslaunch1. ?first = Inr roslaunch1"
  proof (cases "truthy (data_selected roslaunch)")
    case True
    then show ?thesis by simp
  next
    case False
    with kids show ?thesis
      using propagateRosLaunchSelection_returns [of "roslaunch\<lparr>data_selected := TTrue\<rparr>" ask_user]
      by simp
  qed
  then obtain roslaunch1 where f: "?first = Inr roslaunch1" ..
  let ?p = "nid (arg_children (launch_children roslaunch ! ai) ! vi)"
  let ?arg = "(launch_children roslaunch1 ! ai)
                \<lparr>ui_selected := TTrue, data_selected := TTrue, ui_previousValue := Some ?p\<rparr>"
  from propagateValueSelection_first_step [OF f] assms(1)
  have "map nid (arg_children (launch_children roslaunch1 ! ai))
          = map nid (arg_children (launch_children roslaunch ! ai))"
    by (simp add: list_all2_conv_all_nth)
  moreover have "?p \<in> set (map nid (arg_children (launch_children roslaunch ! ai)))"
    using assms(2) by simp
  ultimately have "?p \<in> nid ` set (arg_children ?arg)"
    by (metis (no_types, lifting) arg_node.select_convs(3) arg_node.surjective
        arg_node.update_convs(2) node.update_convs(2,3) set_map)
  then obtain ok arg where "propagateArgSelection ask_user ?arg = Inr (ok, arg)"
    using propagateArgSelection_previous [of ?arg ?p ask_user] by auto
  with f show "\<exists>roslaunch'. propagateValueSelection ask_user roslaunch ai vi = Inr roslaunch'"
    by (simp add: propagateValueSelection_def Let_def)
qed

text \<open>
  Witness for C7: a launch file that is not selected, with one arg that is not selected
  either; the second of its two resolved values has just been selected.
\<close>

theorem propagateValueSelection_upward_witness:
  "\<not> isl (propagateValueSelection (\<lambda>m. None)
      \<lparr>nid = 1, data_selected = TNull, ui_selected = TNull, ui_name = ''a.launch'',
       launch_children =
         [\<lparr>nid = 2, data_selected = TNull, ui_selected = TNull, ui_name = ''x'',
           data_defaultValue = None, ui_previousValue = None,
           arg_children =
             [\<lparr>nid = 3, data_selected = TNull, ui_selected = TNull, ui_name = ''a'',
               data_resolved = True, ui_value = None\<rparr>,
              \<lparr>nid = 4, data_selected = TTrue, ui_selected = TTrue, ui_name = ''b'',
               data_resolved = True, ui_value = None\<rparr>]\<rparr>]\<rparr> 0 1) \<and>
   data_selected (projr (propagateValueSelection (\<lambda>m. None)
      \<lparr>nid = 1, data_selected = TNull, ui_selected = TNull, ui_name = ''a.launch'',
       launch_children =
         [\<lparr>nid = 2, data_selected = TNull, ui_selected = TNull, ui_name = ''x'',
           data_defaultValue = None, ui_previousValue = None,
           arg_children =
             [\<lparr>nid = 3, data_selected = TNull, ui_selected = TNull, ui_name = ''a'',
               data_resolved = True, ui_value = None\<rparr>,
              \<lparr>nid = 4, data_selected = TTrue, ui_selected = TTrue, ui_name = ''b'',
               data_resolved = True, ui_value = None\<rparr>]\<rparr>]\<rparr> 0 1)) = TTrue \<and>
   data_selected (launch_children (projr (propagateValueSelection (\<lambda>m. None)
      \<lparr>nid = 1, data_selected = TNull, ui_selected = TNull, ui_name = ''a.launch'',
       launch_children =
         [\<lparr>nid = 2, data_selected = TNull, ui_selected = TNull, ui_name = ''x'',
           data_defaultValue = None, ui_previousValue = None,
           arg_children =
             [\<lparr>nid = 3, data_selected = TNull, ui_selected = TNull, ui_name = ''a'',
               data_resolved = True, ui_value = None\<rparr>,
              \<lparr>nid = 4, data_selected = TTrue, ui_selected = TTrue, ui_name = ''b'',
               data_resolved = True, ui_value = None\<rparr>]\<rparr>]\<rparr> 0 1)) ! 0) = TTrue"
proof -
  let ?r = "\<lparr>nid = 1, data_selected = TNull, ui_selected = TNull, ui_name = ''a.launch'',
       launch_children =
         [\<lparr>nid = 2, data_selected = TNull, ui_selected = TNull, ui_name = ''x'',
           data_defaultValue = None, ui_previousValue = None,
           arg_children =
             [\<lparr>nid = 3, data_selected = TNull, ui_selected = TNull, ui_name = ''a'',
               data_resolved = True, ui_value = None\<rparr>,
              \<lparr>nid = 4, data_selected = TTrue, ui_selected = TTrue, ui_name = ''b'',
               data_resolved = True, ui_value = None\<rparr>]\<rparr>]\<rparr>"
  have T: "(\<forall>roslaunch'. propagateValueSelection (\<lambda>m. None) ?r 0 1 = Inr roslaunch' \<longrightarrow>
            data_selected roslaunch' = TTrue \<and>
            length (launch_children roslaunch') = length (launch_children ?r) \<and>
            data_selected (launch_children roslaunch' ! 0) = TTrue) \<and>
         ((\<forall>d \<in> set (launch_children ?r). arg_children d \<noteq> []) \<longrightarrow>
            (\<exists>roslaunch'. propagateValueSelection (\<lambda>m. None) ?r 0 1 = Inr roslaunch'))"
    by (rule propagateValueSelection_upward) simp_all
  then obtain r' where r': "propagateValueSelection (\<lambda>m. None) ?r 0 1 = Inr r'"
    by auto
  with T have "data_selected r' = TTrue \<and> data_selected (launch_children r' ! 0) = TTrue"
    by blast
  with r' show ?thesis by simp
qed

section \<open>Properties of the label clicks\<close>

lemma nodeAt_updateAt_same:
  "nodeAt (updateAt f p t) p = map_option f (nodeAt t p)"
proof (induction p arbitrary: t)
  case Nil
  then show ?case by simp
next
  case (Cons i p)
  then show ?case by (cases t) simp
qed

lemma nodeAt_updateAt_above:
  assumes "strict_prefix q p" and "\<And>s. subtrees (g s) = subtrees s"
  shows "nodeAt (updateAt g q t) p = nodeAt t p"
  using assms(1)
proof (induction q arbitrary: p t)
  case Nil
  then obtain i p' where "p = i # p'" by (cases p) auto
  then show ?case by (simp add: assms(2))
next
  case (Cons j q)
  then obtain p' where p: "p = j # p'" and sp: "strict_prefix q p'"
    by (cases p) auto
  obtain v u e ts where t: "t = VTree v u e ts" by (cases t)
  show ?case
    using Cons.IH [OF sp] by (simp add: p t)
qed

lemma subtrees_recalculateValue: "subtrees (recalculateValue s) = subtrees s"
  by (cases s) simp

lemma strict_prefix_butlast:
  "strict_prefix n p \<Longrightarrow> n \<noteq> [] \<Longrightarrow> strict_prefix (butlast n) p"
  by (metis append_butlast_last_id prefix_order.dual_order.strict_trans strict_prefixI'
      strict_prefix_def prefixI prefix_order.less_le_not_le)

lemma nodeAt_ancestorsLoop:
  "strict_prefix n p \<Longrightarrow> nodeAt (ancestorsLoop n t) p = nodeAt t p"
proof (induction n t rule: ancestorsLoop.induct)
  case (1 n t)
  show ?case
  proof (cases "n = []")
    case True
    then show ?thesis by (subst ancestorsLoop.simps) simp
  next
    case False
    have "nodeAt (ancestorsLoop n t) p
            = nodeAt (ancestorsLoop (butlast n) (updateAt recalculateValue n t)) p"
      using False by (subst ancestorsLoop.simps) simp
    also have "\<dots> = nodeAt (updateAt recalculateValue n t) p"
      using "1.IH" [OF False] "1.prems" False by (simp add: strict_prefix_butlast)
    also have "\<dots> = nodeAt t p"
      using "1.prems" by (rule nodeAt_updateAt_above) (rule subtrees_recalculateValue)
    finally show ?thesis .
  qed
qed

lemma pushDown_fields:
  "data_value (pushDown s) = data_value s \<and> data_userValue (pushDown s) = data_userValue s"
  by (cases s) simp

lemma clickValue_fields:
  "data_value (clickValue s) = nextState (data_value s) \<and>
   data_userValue (clickValue s) = nextState (data_value s)"
  by (cases s; cases "data_value s") auto

lemma onValueLabelClick_node:
  assumes "source \<noteq> []" and "nodeAt root source = Some d"
  shows "nodeAt (onValueLabelClick root source) source = Some (pushDown (clickValue d))"
proof -
  have "strict_prefix (butlast source) source"
    using assms(1) by (metis append_butlast_last_id strict_prefixI' )
  then have "nodeAt (ancestorsLoop (butlast source) (updateAt clickValue source root)) source
               = nodeAt (updateAt clickValue source root) source"
    by (rule nodeAt_ancestorsLoop)
  also have "\<dots> = Some (clickValue d)"
    using assms(2) by (simp add: nodeAt_updateAt_same)
  finally show ?thesis
    using assms(1) by (simp add: onValueLabelClick_def propagateSelection_def nodeAt_updateAt_same)
qed

lemma onSelectRosLaunch_agree:
  assumes "ui_selected d = data_selected d" and "onSelectRosLaunch ask_user d = Inr d'"
  shows "data_selected d' = nextState (data_selected d) \<and>
         ui_selected d' = nextState (data_selected d)"
proof -
  let ?clicked = "if truthy (data_selected d) then d\<lparr>data_selected := TFalse, ui_selected := TFalse\<rparr>
           else if data_selected d = TFalse then d\<lparr>data_selected := TNull, ui_selected := TNull\<rparr>
           else d\<lparr>data_selected := TTrue, ui_selected := TTrue\<rparr>"
  from assms have "propagateRosLaunchSelection ask_user ?clicked = Inr d'"
    by (simp add: onSelectRosLaunch_def)
  from propagateRosLaunchSelection_keeps [OF this]
  show ?thesis by (cases "data_selected d") simp_all
qed

lemma onSelectRosLaunch_returns:
  assumes "\<forall>a \<in> set (launch_children d). arg_children a \<noteq> []"
  shows "\<exists>d'. onSelectRosLaunch ask_user d = Inr d'"
proof (cases "ui_selected d = data_selected d")
  case False
  then show ?thesis by (simp add: onSelectRosLaunch_def)
next
  case True
  let ?clicked = "if truthy (data_selected d) then d\<lparr>data_selected := TFalse, ui_selected := TFalse\<rparr>
           else if data_selected d = TFalse then d\<lparr>data_selected := TNull, ui_selected := TNull\<rparr>
           else d\<lparr>data_selected := TTrue, ui_selected := TTrue\<rparr>"
  have "\<forall>a \<in> set (launch_children ?clicked). arg_children a \<noteq> []"
    using assms by simp
  from propagateRosLaunchSelection_returns [OF this, of ask_user] True
  show ?thesis by (simp add: onSelectRosLaunch_def)
qed

text \<open>
  Claim C8, as amended. Tri-state cycling. A label click on a launch file
  (\<^verbatim>\<open>onSelectRosLaunch\<close>) whose \<^verbatim>\<open>ui.selected\<close> agrees with its \<^verbatim>\<open>data.selected\<close> advances
  \<^verbatim>\<open>data.selected\<close>, and \<^verbatim>\<open>ui.selected\<close> with it, cyclically true, false, null, true
  (whenever the handler returns, which it does when every arg has a value); when the
  two disagree, the click only copies \<^verbatim>\<open>data.selected\<close> into \<^verbatim>\<open>ui.selected\<close> and changes
  nothing else. A click on the value label of a non-root node (\<^verbatim>\<open>onValueLabelClick\<close>)
  advances \<^verbatim>\<open>data.value\<close> cyclically true, false, null, true and sets \<^verbatim>\<open>data.userValue\<close> to
  the same state, whether or not the two agreed before the click.
\<close>

theorem label_click_cycles:
  "(ui_selected d = data_selected d \<longrightarrow>
      (\<forall>d'. onSelectRosLaunch ask_user d = Inr d' \<longrightarrow>
         data_selected d' = nextState (data_selected d) \<and>
         ui_selected d' = nextState (data_selected d))) \<and>
   ((\<forall>a \<in> set (launch_children d). arg_children a \<noteq> []) \<longrightarrow>
      (\<exists>d'. onSelectRosLaunch ask_user d = Inr d')) \<and>
   (ui_selected d \<noteq> data_selected d \<longrightarrow>
      onSelectRosLaunch ask_user d = Inr (d\<lparr>ui_selected := data_selected d\<rparr>)) \<and>
   (source \<noteq> [] \<and> nodeAt root source = Some n \<longrightarrow>
      (\<exists>n'. nodeAt (onValueLabelClick root source) source = Some n' \<and>
         data_value n' = nextState (data_value n) \<and>
         data_userValue n' = nextState (data_value n)))"
proof (intro conjI impI allI)
  fix d'
  assume "ui_selected d = data_selected d" and "onSelectRosLaunch ask_user d = Inr d'"
  then show "data_selected d' = nextState (data_selected d)"
    and "ui_selected d' = nextState (data_selected d)"
    using onSelectRosLaunch_agree by blast+
next
  assume "\<forall>a \<in> set (launch_children d). arg_children a \<noteq> []"
  then show "\<exists>d'. onSelectRosLaunch ask_user d = Inr d'"
    by (rule onSelectRosLaunch_returns)
next
  assume "ui_selected d \<noteq> data_selected d"
  then show "onSelectRosLaunch ask_user d = Inr (d\<lparr>ui_selected := data_selected d\<rparr>)"
    by (simp add: onSelectRosLaunch_def)
next
  assume "source \<noteq> [] \<and> nodeAt root source = Some n"
  then have "nodeAt (onValueLabelClick root source) source = Some (pushDown (clickValue n))"
    using onValueLabelClick_node by blast
  then show "\<exists>n'. nodeAt (onValueLabelClick root source) source = Some n' \<and>
         data_value n' = nextState (data_value n) \<and>
         data_userValue n' = nextState (data_value n)"
    by (simp add: pushDown_fields clickValue_fields)
qed

text \<open>
  Witness for C8: a selected launch file with one arg and one value, clicked in
  agreement (it becomes discarded) and clicked while its label shows another state
  (only the label state changes), and a click on the first child of a root in the tree
  with a value column.
\<close>

theorem label_click_cycles_witness:
  "data_selected (projr (onSelectRosLaunch (\<lambda>m. None)
      \<lparr>nid = 1, data_selected = TTrue, ui_selected = TTrue, ui_name = ''a.launch'',
       launch_children =
         [\<lparr>nid = 2, data_selected = TTrue, ui_selected = TTrue, ui_name = ''x'',
           data_defaultValue = None, ui_previousValue = None,
           arg_children =
             [\<lparr>nid = 3, data_selected = TTrue, ui_selected = TTrue, ui_name = ''a'',
               data_resolved = True, ui_value = None\<rparr>]\<rparr>]\<rparr>)) = TFalse \<and>
   onSelectRosLaunch (\<lambda>m. None)
      \<lparr>nid = 1, data_selected = TTrue, ui_selected = TNull, ui_name = ''a.launch'',
       launch_children = []\<rparr>
     = Inr \<lparr>nid = 1, data_selected = TTrue, ui_selected = TTrue, ui_name = ''a.launch'',
            launch_children = []\<rparr> \<and>
   map_option data_value
     (nodeAt (onValueLabelClick (VTree TNull TNull True [VTree TFalse TFalse False []]) [0]) [0])
     = Some TNull"
proof -
  let ?d = "\<lparr>nid = 1, data_selected = TTrue, ui_selected = TTrue, ui_name = ''a.launch'',
       launch_children =
         [\<lparr>nid = 2, data_selected = TTrue, ui_selected = TTrue, ui_name = ''x'',
           data_defaultValue = None, ui_previousValue = None,
           arg_children =
             [\<lparr>nid = 3, data_selected = TTrue, ui_selected = TTrue, ui_name = ''a'',
               data_resolved = True, ui_value = None\<rparr>]\<rparr>]\<rparr>"
  let ?e = "\<lparr>nid = 1, data_selected = TTrue, ui_selected = TNull, ui_name = ''a.launch'',
       launch_children = []\<rparr>"
  let ?t = "VTree TNull TNull True [VTree TFalse TFalse False []]"
  have a: "data_selected (projr (onSelectRosLaunch (\<lambda>m. None) ?d)) = TFalse"
    using label_click_cycles [of ?d "\<lambda>m. None" "[0]" ?t "VTree TFalse TFalse False []"]
    by auto
  have b: "onSelectRosLaunch (\<lambda>m. None) ?e = Inr (?e\<lparr>ui_selected := data_selected ?e\<rparr>)"
    using label_click_cycles [of ?e "\<lambda>m. None" "[0]" ?t "VTree TFalse TFalse False []"]
    by simp
  have c: "map_option data_value (nodeAt (onValueLabelClick ?t [0]) [0]) = Some TNull"
    using label_click_cycles [of ?d "\<lambda>m. None" "[0]" ?t "VTree TFalse TFalse False []"]
    by auto
  from a b c show ?thesis by simp
qed

text \<open>
  Counterexample to C8 as stated. In the tree with a value column, the node at path
  \<open>[0]\<close> is true automatically (its child is true, the user chose nothing for it), so
  its two states disagree. The click does not copy one state into the other: it
  changes \<^verbatim>\<open>data.value\<close> from true to false, and the child with it.
\<close>

theorem label_click_counterexample:
  "nodeAt (VTree TNull TNull True
             [VTree TTrue TNull True [VTree TTrue TTrue False []]]) [0]
     = Some (VTree TTrue TNull True [VTree TTrue TTrue False []]) \<and>
   nodeAt (onValueLabelClick
             (VTree TNull TNull True
                [VTree TTrue TNull True [VTree TTrue TTrue False []]]) [0]) [0]
     = Some (VTree TFalse TFalse True [VTree TFalse TTrue False []])"
  by code_simp

section \<open>Properties of the visible graph\<close>

lemma eachNode_result:
  assumes "distinct ks" and "\<forall>k \<in> set ks. node_label g k \<noteq> None"
  shows "eachNode f ks g =
           Inr (g\<lparr>node_label := (\<lambda>k. if k \<in> set ks then map_option f (node_label g k)
                                        else node_label g k)\<rparr>)"
  using assms
proof (induction ks arbitrary: g)
  case Nil
  then show ?case by simp
next
  case (Cons k ks)
  then obtain v where v: "node_label g k = Some v" by auto
  let ?g = "g\<lparr>node_label := (node_label g)(k \<mapsto> f v)\<rparr>"
  have "eachNode f ks ?g =
          Inr (?g\<lparr>node_label := (\<lambda>k. if k \<in> set ks then map_option f (node_label ?g k)
                                        else node_label ?g k)\<rparr>)"
    using Cons.prems by (intro Cons.IH) auto
  moreover have "(\<lambda>k'. if k' \<in> set ks then map_option f (node_label ?g k') else node_label ?g k')
      = (\<lambda>k'. if k' \<in> set (k # ks) then map_option f (node_label g k') else node_label g k')"
    using Cons.prems v by (auto simp: fun_eq_iff)
  ultimately show ?case using v by simp
qed

lemma eachEdge_result:
  assumes "distinct ks" and "\<forall>k \<in> set ks. edge_label g k \<noteq> None"
  shows "eachEdge f ks g =
           Inr (g\<lparr>edge_label := (\<lambda>k. if k \<in> set ks then map_option f (edge_label g k)
                                        else edge_label g k)\<rparr>)"
  using assms
proof (induction ks arbitrary: g)
  case Nil
  then show ?case by simp
next
  case (Cons k ks)
  then obtain v where v: "edge_label g k = Some v" by auto
  let ?g = "g\<lparr>edge_label := (edge_label g)(k \<mapsto> f v)\<rparr>"
  have "eachEdge f ks ?g =
          Inr (?g\<lparr>edge_label := (\<lambda>k. if k \<in> set ks then map_option f (edge_label ?g k)
                                        else edge_label ?g k)\<rparr>)"
    using Cons.prems by (intro Cons.IH) auto
  moreover have "(\<lambda>k'. if k' \<in> set ks then map_option f (edge_label ?g k') else edge_label ?g k')
      = (\<lambda>k'. if k' \<in> set (k # ks) then map_option f (edge_label g k') else edge_label g k')"
    using Cons.prems v by (auto simp: fun_eq_iff)
  ultimately show ?case using v by simp
qed

lemma addNode_simps:
  "set (node_keys (addNode k g)) = insert k (set (node_keys g))"
  "node_label (addNode k g) = node_label g"
  "edge_keys (addNode k g) = edge_keys g"
  "edge_label (addNode k g) = edge_label g"
  by (auto simp: addNode_def)

lemma setNode_simps:
  "set (node_keys (setNode k v g)) = insert k (set (node_keys g))"
  "node_label (setNode k v g) = (node_label g)(k \<mapsto> v)"
  "edge_keys (setNode k v g) = edge_keys g"
  "edge_label (setNode k v g) = edge_label g"
  by (auto simp: setNode_def addNode_def)

lemma setEdge_simps:
  "set (edge_keys (setEdge e v g)) = insert e (set (edge_keys g))"
  "set (node_keys (setEdge e v g)) =
     (if e \<in> set (edge_keys g) then set (node_keys g)
      else insert (fst e) (insert (snd e) (set (node_keys g))))"
  "node_label (setEdge e v g) = node_label g"
  "edge_label (setEdge e v g) = (edge_label g)(e \<mapsto> v)"
  by (auto simp: setEdge_def addNode_def)

text \<open>What a collecting loop over node keys returns.\<close>

lemma collectNodes_result:
  assumes "distinct ks"
    and "\<forall>k \<in> set ks. \<exists>v. node_label g k = Some v \<and> model_id (node_model (f v)) = k"
  shows "\<exists>g' vg'. collectNodes f ks g vg = Inr (g', vg') \<and>
           g' = g\<lparr>node_label := (\<lambda>k. if k \<in> set ks then map_option f (node_label g k)
                                       else node_label g k)\<rparr> \<and>
           set (node_keys vg') = set (node_keys vg) \<union>
             {k \<in> set ks. \<exists>v. node_label g k = Some v \<and> node_visible (f v)} \<and>
           (\<forall>k. node_label vg' k =
              (if k \<in> set ks \<and> (\<exists>v. node_label g k = Some v \<and> node_visible (f v))
               then map_option f (node_label g k) else node_label vg k)) \<and>
           edge_keys vg' = edge_keys vg \<and> edge_label vg' = edge_label vg"
  using assms
proof (induction ks arbitrary: g vg)
  case Nil
  then show ?case by simp
next
  case (Cons k ks)
  then obtain v where v: "node_label g k = Some v" "model_id (node_model (f v)) = k" by auto
  let ?g = "g\<lparr>node_label := (node_label g)(k \<mapsto> f v)\<rparr>"
  let ?vg = "if node_visible (f v) then setNode k (f v) vg else vg"
  have same: "\<And>k'. k' \<in> set ks \<Longrightarrow> node_label ?g k' = node_label g k'"
    using Cons.prems(1) by auto
  have "\<exists>g' vg'. collectNodes f ks ?g ?vg = Inr (g', vg') \<and>
           g' = ?g\<lparr>node_label := (\<lambda>k. if k \<in> set ks then map_option f (node_label ?g k)
                                       else node_label ?g k)\<rparr> \<and>
           set (node_keys vg') = set (node_keys ?vg) \<union>
             {k \<in> set ks. \<exists>v. node_label ?g k = Some v \<and> node_visible (f v)} \<and>
           (\<forall>k. node_label vg' k =
              (if k \<in> set ks \<and> (\<exists>v. node_label ?g k = Some v \<and> node_visible (f v))
               then map_option f (node_label ?g k) else node_label ?vg k)) \<and>
           edge_keys vg' = edge_keys ?vg \<and> edge_label vg' = edge_label ?vg"
    using Cons.prems by (intro Cons.IH) auto
  then obtain g' vg' where r: "collectNodes f ks ?g ?vg = Inr (g', vg')"
    and g': "g' = ?g\<lparr>node_label := (\<lambda>k. if k \<in> set ks then map_option f (node_label ?g k)
                                       else node_label ?g k)\<rparr>"
    and nk: "set (node_keys vg') = set (node_keys ?vg) \<union>
             {k \<in> set ks. \<exists>v. node_label ?g k = Some v \<and> node_visible (f v)}"
    and nl: "\<And>k. node_label vg' k =
              (if k \<in> set ks \<and> (\<exists>v. node_label ?g k = Some v \<and> node_visible (f v))
               then map_option f (node_label ?g k) else node_label ?vg k)"
    and ek: "edge_keys vg' = edge_keys ?vg" and el: "edge_label vg' = edge_label ?vg"
    by blast
  have c: "collectNodes f (k # ks) g vg = Inr (g', vg')"
    using r v by (cases "node_visible (f v)") simp_all
  have g'': "g' = g\<lparr>node_label := (\<lambda>k'. if k' \<in> set (k # ks) then map_option f (node_label g k')
                                       else node_label g k')\<rparr>"
    using g' v Cons.prems(1) by (auto simp: fun_eq_iff)
  have nk': "set (node_keys vg') = set (node_keys vg) \<union>
             {k' \<in> set (k # ks). \<exists>v. node_label g k' = Some v \<and> node_visible (f v)}"
    using nk v same Cons.prems(1) by (auto simp: setNode_simps)
  have nl': "\<forall>k'. node_label vg' k' =
              (if k' \<in> set (k # ks) \<and> (\<exists>v. node_label g k' = Some v \<and> node_visible (f v))
               then map_option f (node_label g k') else node_label vg k')"
    using nl v same Cons.prems(1) by (auto simp: setNode_simps)
  have "edge_keys vg' = edge_keys vg \<and> edge_label vg' = edge_label vg"
    using ek el by (simp add: setNode_simps)
  with c g'' nk' nl' show ?case by blast
qed

text \<open>What a collecting loop over edge keys returns.\<close>

lemma collectEdges_result:
  assumes "distinct ks" and "\<forall>k \<in> set ks. edge_label g k \<noteq> None"
  shows "\<exists>g' vg'. collectEdges f ks g vg = Inr (g', vg') \<and>
           g' = g\<lparr>edge_label := (\<lambda>k. if k \<in> set ks then map_option (f k) (edge_label g k)
                                       else edge_label g k)\<rparr> \<and>
           set (edge_keys vg') = set (edge_keys vg) \<union>
             {k \<in> set ks. \<exists>v. edge_label g k = Some v \<and> edge_visible (f k v)} \<and>
           set (node_keys vg') \<subseteq> set (node_keys vg) \<union>
             fst ` {k \<in> set ks. \<exists>v. edge_label g k = Some v \<and> edge_visible (f k v)} \<union>
             snd ` {k \<in> set ks. \<exists>v. edge_label g k = Some v \<and> edge_visible (f k v)} \<and>
           set (node_keys vg) \<subseteq> set (node_keys vg') \<and>
           (\<forall>k. edge_label vg' k =
              (if k \<in> set ks \<and> (\<exists>v. edge_label g k = Some v \<and> edge_visible (f k v))
               then map_option (f k) (edge_label g k) else edge_label vg k)) \<and>
           node_label vg' = node_label vg"
  using assms
proof (induction ks arbitrary: g vg)
  case Nil
  then show ?case by simp
next
  case (Cons k ks)
  then obtain v where v: "edge_label g k = Some v" by auto
  let ?g = "g\<lparr>edge_label := (edge_label g)(k \<mapsto> f k v)\<rparr>"
  let ?vg = "if edge_visible (f k v) then setEdge k (f k v) vg else vg"
  have same: "\<And>k'. k' \<in> set ks \<Longrightarrow> edge_label ?g k' = edge_label g k'"
    using Cons.prems(1) by auto
  have "\<exists>g' vg'. collectEdges f ks ?g ?vg = Inr (g', vg') \<and>
           g' = ?g\<lparr>edge_label := (\<lambda>k. if k \<in> set ks then map_option (f k) (edge_label ?g k)
                                       else edge_label ?g k)\<rparr> \<and>
           set (edge_keys vg') = set (edge_keys ?vg) \<union>
             {k \<in> set ks. \<exists>v. edge_label ?g k = Some v \<and> edge_visible (f k v)} \<and>
           set (node_keys vg') \<subseteq> set (node_keys ?vg) \<union>
             fst ` {k \<in> set ks. \<exists>v. edge_label ?g k = Some v \<and> edge_visible (f k v)} \<union>
             snd ` {k \<in> set ks. \<exists>v. edge_label ?g k = Some v \<and> edge_visible (f k v)} \<and>
           set (node_keys ?vg) \<subseteq> set (node_keys vg') \<and>
           (\<forall>k. edge_label vg' k =
              (if k \<in> set ks \<and> (\<exists>v. edge_label ?g k = Some v \<and> edge_visible (f k v))
               then map_option (f k) (edge_label ?g k) else edge_label ?vg k)) \<and>
           node_label vg' = node_label ?vg"
    using Cons.prems by (intro Cons.IH) auto
  then obtain g' vg' where r: "collectEdges f ks ?g ?vg = Inr (g', vg')"
    and g': "g' = ?g\<lparr>edge_label := (\<lambda>k. if k \<in> set ks then map_option (f k) (edge_label ?g k)
                                       else edge_label ?g k)\<rparr>"
    and ek: "set (edge_keys vg') = set (edge_keys ?vg) \<union>
             {k \<in> set ks. \<exists>v. edge_label ?g k = Some v \<and> edge_visible (f k v)}"
    and nk: "set (node_keys vg') \<subseteq> set (node_keys ?vg) \<union>
             fst ` {k \<in> set ks. \<exists>v. edge_label ?g k = Some v \<and> edge_visible (f k v)} \<union>
             snd ` {k \<in> set ks. \<exists>v. edge_label ?g k = Some v \<and> edge_visible (f k v)}"
    and nk2: "set (node_keys ?vg) \<subseteq> set (node_keys vg')"
    and el: "\<And>k. edge_label vg' k =
              (if k \<in> set ks \<and> (\<exists>v. edge_label ?g k = Some v \<and> edge_visible (f k v))
               then map_option (f k) (edge_label ?g k) else edge_label ?vg k)"
    and nl: "node_label vg' = node_label ?vg"
    by blast
  let ?Q = "\<lambda>g ks. {k \<in> set ks. \<exists>v. edge_label g k = Some v \<and> edge_visible (f k v)}"
  have notin: "k \<notin> set ks"
    using Cons.prems(1) by simp
  have Q: "?Q ?g ks = ?Q g ks"
    using notin by auto
  have c: "collectEdges f (k # ks) g vg = Inr (g', vg')"
    using r v by (cases "edge_visible (f k v)") simp_all
  have g'': "g' = g\<lparr>edge_label := (\<lambda>k'. if k' \<in> set (k # ks) then map_option (f k') (edge_label g k')
                                       else edge_label g k')\<rparr>"
    using g' v Cons.prems(1) by (auto simp: fun_eq_iff)
  have ek': "set (edge_keys vg') = set (edge_keys vg) \<union> ?Q g (k # ks)"
    unfolding ek Q using v by (auto simp: setEdge_simps)
  have nk': "set (node_keys vg') \<subseteq> set (node_keys vg) \<union> fst ` ?Q g (k # ks) \<union> snd ` ?Q g (k # ks)"
  proof
    fix x assume x: "x \<in> set (node_keys vg')"
    have sub: "?Q g ks \<subseteq> ?Q g (k # ks)" by auto
    from x nk have "x \<in> set (node_keys ?vg) \<or> x \<in> fst ` ?Q g ks \<or> x \<in> snd ` ?Q g ks"
      unfolding Q by blast
    then consider (a) "x \<in> set (node_keys ?vg)" | (b) "x \<in> fst ` ?Q g ks"
      | (c) "x \<in> snd ` ?Q g ks" by blast
    then show "x \<in> set (node_keys vg) \<union> fst ` ?Q g (k # ks) \<union> snd ` ?Q g (k # ks)"
    proof cases
      case a
      show ?thesis
      proof (cases "edge_visible (f k v)")
        case True
        then have kQ: "k \<in> ?Q g (k # ks)" using v by simp
        from a True have "x \<in> set (node_keys vg) \<or> x = fst k \<or> x = snd k"
          by (auto simp: setEdge_simps split: if_splits)
        then show ?thesis
          using imageI [OF kQ, of fst] imageI [OF kQ, of snd] by blast
      next
        case False
        with a show ?thesis by simp
      qed
    next
      case b
      with sub show ?thesis by blast
    next
      case c
      with sub show ?thesis by blast
    qed
  qed
  have nk2': "set (node_keys vg) \<subseteq> set (node_keys vg')"
    using nk2 by (auto simp: setEdge_simps split: if_splits)
  have el': "\<forall>k'. edge_label vg' k' =
              (if k' \<in> set (k # ks) \<and> (\<exists>v. edge_label g k' = Some v \<and> edge_visible (f k' v))
               then map_option (f k') (edge_label g k') else edge_label vg k')"
    using el v same Cons.prems(1) by (auto simp: setEdge_simps)
  have "node_label vg' = node_label vg"
    using nl by (simp add: setEdge_simps)
  with c g'' ek' nk' nk2' el' show ?case by blast
qed

lemma wellFormed_nodes:
  assumes "wellFormed g" and "k \<in> set (node_keys g)"
  shows "\<exists>v. node_label g k = Some v \<and> model_id (node_model v) = k"
  using assms by (auto simp: wellFormed_def list_all_iff split: option.splits)

lemma wellFormed_edges:
  assumes "wellFormed g" and "(a, b) \<in> set (edge_keys g)"
  shows "a \<in> set (node_keys g) \<and> b \<in> set (node_keys g) \<and>
         (\<exists>e va vb. edge_label g (a, b) = Some e \<and>
            node_label g a = Some va \<and> node_label g b = Some vb \<and>
            node_model va = edge_source e \<and> node_model vb = edge_target e)"
proof -
  from assms(1) have all: "\<And>k. k \<in> set (edge_keys g) \<Longrightarrow>
      fst k \<in> set (node_keys g) \<and> snd k \<in> set (node_keys g) \<and>
      (case edge_label g k of
         None \<Rightarrow> False
       | Some e \<Rightarrow>
           map_option node_model (node_label g (fst k)) = Some (edge_source e) \<and>
           map_option node_model (node_label g (snd k)) = Some (edge_target e))"
    by (simp add: wellFormed_def list_all_iff)
  from all [OF assms(2)] show ?thesis
    by (auto split: option.splits)
qed

lemma wellFormed_distinct:
  "wellFormed g \<Longrightarrow> distinct (node_keys g) \<and> distinct (edge_keys g)"
  by (simp add: wellFormed_def)

text \<open>
  The second half of \<^verbatim>\<open>updateVisibility\<close> on a well-formed graph, for any pair of
  assignments that leave the models alone and make the ends of a visible edge visible.
\<close>

lemma second_half:
  assumes wf: "wellFormed g"
    and fN: "\<And>v. node_model (fN v) = node_model v"
    and ends: "\<forall>a b e. (a, b) \<in> set (edge_keys g) \<and> edge_label g (a, b) = Some e \<and>
                 edge_visible (fE (a, b) e) \<longrightarrow>
                 (\<exists>v. node_label g a = Some v \<and> node_visible (fN v)) \<and>
                 (\<exists>v. node_label g b = Some v \<and> node_visible (fN v))"
  shows "\<exists>g1 vg1 g2 vg.
           collectNodes fN (rev (node_keys g)) g newGraph = Inr (g1, vg1) \<and>
           collectEdges fE (rev (edge_keys g)) g1 vg1 = Inr (g2, vg) \<and>
           g2 = g\<lparr>node_label := (\<lambda>k. if k \<in> set (node_keys g) then map_option fN (node_label g k)
                                       else node_label g k),
                  edge_label := (\<lambda>k. if k \<in> set (edge_keys g)
                                       then map_option (fE k) (edge_label g k)
                                       else edge_label g k)\<rparr> \<and>
           set (node_keys vg) =
             {k \<in> set (node_keys g). \<exists>v. node_label g k = Some v \<and> node_visible (fN v)} \<and>
           set (edge_keys vg) =
             {k \<in> set (edge_keys g). \<exists>e. edge_label g k = Some e \<and> edge_visible (fE k e)} \<and>
           (\<forall>k \<in> set (node_keys vg). node_label vg k = node_label g2 k) \<and>
           (\<forall>k \<in> set (edge_keys vg). edge_label vg k = edge_label g2 k)"
proof -
  let ?N = "{k \<in> set (node_keys g). \<exists>v. node_label g k = Some v \<and> node_visible (fN v)}"
  let ?E = "{k \<in> set (edge_keys g). \<exists>e. edge_label g k = Some e \<and> edge_visible (fE k e)}"
  have dn: "distinct (rev (node_keys g))" and de: "distinct (rev (edge_keys g))"
    using wellFormed_distinct [OF wf] by simp_all
  have pre: "\<forall>k \<in> set (rev (node_keys g)).
      \<exists>v. node_label g k = Some v \<and> model_id (node_model (fN v)) = k"
    using wellFormed_nodes [OF wf] by (simp add: fN)
  from collectNodes_result [OF dn pre, of newGraph]
  obtain g1 vg1 where c1: "collectNodes fN (rev (node_keys g)) g newGraph = Inr (g1, vg1)"
    and g1: "g1 = g\<lparr>node_label := (\<lambda>k. if k \<in> set (rev (node_keys g))
                       then map_option fN (node_label g k) else node_label g k)\<rparr>"
    and nk1: "set (node_keys vg1) = set (node_keys newGraph) \<union>
             {k \<in> set (rev (node_keys g)). \<exists>v. node_label g k = Some v \<and> node_visible (fN v)}"
    and nl1: "\<And>k. node_label vg1 k =
              (if k \<in> set (rev (node_keys g)) \<and> (\<exists>v. node_label g k = Some v \<and> node_visible (fN v))
               then map_option fN (node_label g k) else node_label newGraph k)"
    and ek1: "edge_keys vg1 = edge_keys newGraph" and el1: "edge_label vg1 = edge_label newGraph"
    by blast
  have nk1': "set (node_keys vg1) = ?N"
    using nk1 by (simp add: newGraph_def)
  have el_g1: "edge_label g1 = edge_label g" and ek_g1: "edge_keys g1 = edge_keys g"
    using g1 by simp_all
  have pre2: "\<forall>k \<in> set (rev (edge_keys g)). edge_label g1 k \<noteq> None"
    using wellFormed_edges [OF wf] el_g1 by auto
  from collectEdges_result [OF de pre2, of fE vg1]
  obtain g2 vg where c2: "collectEdges fE (rev (edge_keys g)) g1 vg1 = Inr (g2, vg)"
    and g2: "g2 = g1\<lparr>edge_label := (\<lambda>k. if k \<in> set (rev (edge_keys g))
                       then map_option (fE k) (edge_label g1 k) else edge_label g1 k)\<rparr>"
    and ek2: "set (edge_keys vg) = set (edge_keys vg1) \<union>
             {k \<in> set (rev (edge_keys g)). \<exists>v. edge_label g1 k = Some v \<and> edge_visible (fE k v)}"
    and nk2: "set (node_keys vg) \<subseteq> set (node_keys vg1) \<union>
             fst ` {k \<in> set (rev (edge_keys g)). \<exists>v. edge_label g1 k = Some v \<and> edge_visible (fE k v)} \<union>
             snd ` {k \<in> set (rev (edge_keys g)). \<exists>v. edge_label g1 k = Some v \<and> edge_visible (fE k v)}"
    and nk3: "set (node_keys vg1) \<subseteq> set (node_keys vg)"
    and el2: "\<And>k. edge_label vg k =
              (if k \<in> set (rev (edge_keys g)) \<and> (\<exists>v. edge_label g1 k = Some v \<and> edge_visible (fE k v))
               then map_option (fE k) (edge_label g1 k) else edge_label vg1 k)"
    and nl2: "node_label vg = node_label vg1"
    by blast
  have E: "{k \<in> set (rev (edge_keys g)). \<exists>v. edge_label g1 k = Some v \<and> edge_visible (fE k v)} = ?E"
    using el_g1 by simp
  have ek2': "set (edge_keys vg) = ?E"
    using ek2 ek1 E by (simp add: newGraph_def)
  have fstE: "fst ` ?E \<subseteq> ?N"
  proof
    fix x assume "x \<in> fst ` ?E"
    then obtain b e where "(x, b) \<in> set (edge_keys g)" "edge_label g (x, b) = Some e"
      "edge_visible (fE (x, b) e)" by auto
    with ends wellFormed_edges [OF wf, of x b] show "x \<in> ?N" by blast
  qed
  have sndE: "snd ` ?E \<subseteq> ?N"
  proof
    fix x assume "x \<in> snd ` ?E"
    then obtain a e where "(a, x) \<in> set (edge_keys g)" "edge_label g (a, x) = Some e"
      "edge_visible (fE (a, x) e)" by auto
    with ends wellFormed_edges [OF wf, of a x] show "x \<in> ?N" by blast
  qed
  have nk': "set (node_keys vg) = ?N"
    using nk2 nk3 fstE sndE unfolding E nk1' by blast
  have g2': "g2 = g\<lparr>node_label := (\<lambda>k. if k \<in> set (node_keys g) then map_option fN (node_label g k)
                                       else node_label g k),
                  edge_label := (\<lambda>k. if k \<in> set (edge_keys g)
                                       then map_option (fE k) (edge_label g k)
                                       else edge_label g k)\<rparr>"
    unfolding g2 el_g1 by (simp add: g1)
  have nl': "\<forall>k \<in> set (node_keys vg). node_label vg k = node_label g2 k"
    unfolding nk' using nl2 nl1 g2' by auto
  have el': "\<forall>k \<in> set (edge_keys vg). edge_label vg k = edge_label g2 k"
    unfolding ek2' using el2 el_g1 g2' by auto
  from c1 c2 g2' nk' ek2' nl' el' show ?thesis by blast
qed

lemma wellFormedI:
  assumes "distinct (node_keys g)" and "distinct (edge_keys g)"
    and n: "\<And>k. k \<in> set (node_keys g) \<Longrightarrow>
              \<exists>v. node_label g k = Some v \<and> model_id (node_model v) = k"
    and e: "\<And>a b. (a, b) \<in> set (edge_keys g) \<Longrightarrow>
              a \<in> set (node_keys g) \<and> b \<in> set (node_keys g) \<and>
              (\<exists>e va vb. edge_label g (a, b) = Some e \<and>
                 node_label g a = Some va \<and> node_label g b = Some vb \<and>
                 node_model va = edge_source e \<and> node_model vb = edge_target e)"
  shows "wellFormed g"
proof -
  have "\<forall>k \<in> set (node_keys g).
          (case node_label g k of None \<Rightarrow> False | Some v \<Rightarrow> model_id (node_model v) = k)"
  proof
    fix k assume "k \<in> set (node_keys g)"
    from n [OF this] show "case node_label g k of None \<Rightarrow> False
                           | Some v \<Rightarrow> model_id (node_model v) = k"
      by auto
  qed
  moreover have "\<forall>k \<in> set (edge_keys g).
      fst k \<in> set (node_keys g) \<and> snd k \<in> set (node_keys g) \<and>
      (case edge_label g k of
         None \<Rightarrow> False
       | Some e \<Rightarrow>
           map_option node_model (node_label g (fst k)) = Some (edge_source e) \<and>
           map_option node_model (node_label g (snd k)) = Some (edge_target e))"
  proof
    fix k assume k: "k \<in> set (edge_keys g)"
    obtain a b where ab: "k = (a, b)" by (cases k)
    from e [of a b] k ab
    show "fst k \<in> set (node_keys g) \<and> snd k \<in> set (node_keys g) \<and>
      (case edge_label g k of
         None \<Rightarrow> False
       | Some e \<Rightarrow>
           map_option node_model (node_label g (fst k)) = Some (edge_source e) \<and>
           map_option node_model (node_label g (snd k)) = Some (edge_target e))"
      by auto
  qed
  ultimately show ?thesis
    using assms(1,2) by (simp add: wellFormed_def list_all_iff)
qed

lemma wellFormed_relabel:
  assumes wf: "wellFormed g"
    and fN: "\<And>v. node_model (fN v) = node_model v"
    and fE: "\<And>k e. edge_source (fE k e) = edge_source e \<and> edge_target (fE k e) = edge_target e"
  shows "wellFormed
           (g\<lparr>node_label := (\<lambda>k. if k \<in> set (node_keys g) then map_option fN (node_label g k)
                                    else node_label g k),
               edge_label := (\<lambda>k. if k \<in> set (edge_keys g)
                                    then map_option (fE k) (edge_label g k)
                                    else edge_label g k)\<rparr>)"
proof (rule wellFormedI)
  let ?g = "g\<lparr>node_label := (\<lambda>k. if k \<in> set (node_keys g) then map_option fN (node_label g k)
                                    else node_label g k),
               edge_label := (\<lambda>k. if k \<in> set (edge_keys g)
                                    then map_option (fE k) (edge_label g k)
                                    else edge_label g k)\<rparr>"
  show "distinct (node_keys ?g)" "distinct (edge_keys ?g)"
    using wellFormed_distinct [OF wf] by simp_all
  show "\<exists>v. node_label ?g k = Some v \<and> model_id (node_model v) = k"
    if "k \<in> set (node_keys ?g)" for k
    using wellFormed_nodes [OF wf, of k] that by (auto simp: fN)
  show "a \<in> set (node_keys ?g) \<and> b \<in> set (node_keys ?g) \<and>
        (\<exists>e va vb. edge_label ?g (a, b) = Some e \<and>
           node_label ?g a = Some va \<and> node_label ?g b = Some vb \<and>
           node_model va = edge_source e \<and> node_model vb = edge_target e)"
    if "(a, b) \<in> set (edge_keys ?g)" for a b
    using wellFormed_edges [OF wf, of a b] that by (auto simp: fN fE)
qed

text \<open>
  Every graph that \<^verbatim>\<open>setModel\<close> builds is well formed: the new graph is, and adding a
  resource with a fresh id or an edge between two nodes keeps it so.
\<close>

lemma newGraph_wellFormed: "wellFormed newGraph"
  by (simp add: wellFormed_def newGraph_def)

lemma addResource_wellFormed:
  assumes wf: "wellFormed g" and fresh: "model_id m \<notin> set (node_keys g)"
  shows "wellFormed (addResource m g)"
proof (rule wellFormedI)
  let ?g = "addResource m g"
  have nk: "node_keys ?g = node_keys g @ [model_id m]"
    and nl: "node_label ?g = (node_label g)(model_id m \<mapsto> \<lparr>node_model = m, node_visible = False\<rparr>)"
    and ek: "edge_keys ?g = edge_keys g" and el: "edge_label ?g = edge_label g"
    using fresh by (simp_all add: addResource_def setNode_def addNode_def)
  show "distinct (node_keys ?g)" "distinct (edge_keys ?g)"
    using wellFormed_distinct [OF wf] fresh by (simp_all add: nk ek)
  show "\<exists>v. node_label ?g k = Some v \<and> model_id (node_model v) = k"
    if "k \<in> set (node_keys ?g)" for k
    using that wellFormed_nodes [OF wf, of k] by (auto simp: nk nl)
  show "a \<in> set (node_keys ?g) \<and> b \<in> set (node_keys ?g) \<and>
        (\<exists>e va vb. edge_label ?g (a, b) = Some e \<and>
           node_label ?g a = Some va \<and> node_label ?g b = Some vb \<and>
           node_model va = edge_source e \<and> node_model vb = edge_target e)"
    if "(a, b) \<in> set (edge_keys ?g)" for a b
  proof -
    from that have ab: "(a, b) \<in> set (edge_keys g)" by (simp add: ek)
    from wellFormed_edges [OF wf ab] fresh have "a \<noteq> model_id m" "b \<noteq> model_id m"
      by auto
    with wellFormed_edges [OF wf ab] show ?thesis
      by (simp add: nk nl el)
  qed
qed

lemma addEdge_wellFormed:
  assumes wf: "wellFormed g" and a: "a \<in> set (node_keys g)" and b: "b \<in> set (node_keys g)"
  shows "\<exists>g'. addEdge a b g = Some g' \<and> wellFormed g'"
proof -
  from wellFormed_nodes [OF wf a] obtain s where s: "node_label g a = Some s" by blast
  from wellFormed_nodes [OF wf b] obtain t where t: "node_label g b = Some t" by blast
  let ?e = "\<lparr>edge_source = node_model s, edge_target = node_model t, edge_visible = False\<rparr>"
  let ?g = "setEdge (a, b) ?e g"
  have r: "addEdge a b g = Some ?g"
    using s t by (simp add: addEdge_def)
  have nk: "node_keys ?g = node_keys g" and nl: "node_label ?g = node_label g"
    and ek: "set (edge_keys ?g) = insert (a, b) (set (edge_keys g))"
    and el: "edge_label ?g = (edge_label g)((a, b) \<mapsto> ?e)"
    using a b by (auto simp: setEdge_def addNode_def)
  have "wellFormed ?g"
  proof (rule wellFormedI)
    show "distinct (node_keys ?g)"
      using wellFormed_distinct [OF wf] by (simp add: nk)
    show "distinct (edge_keys ?g)"
      using wellFormed_distinct [OF wf] a b by (simp add: setEdge_def addNode_def)
    show "\<exists>v. node_label ?g k = Some v \<and> model_id (node_model v) = k"
      if "k \<in> set (node_keys ?g)" for k
      using that wellFormed_nodes [OF wf, of k] by (simp add: nk nl)
    show "c \<in> set (node_keys ?g) \<and> d \<in> set (node_keys ?g) \<and>
          (\<exists>e va vb. edge_label ?g (c, d) = Some e \<and>
             node_label ?g c = Some va \<and> node_label ?g d = Some vb \<and>
             node_model va = edge_source e \<and> node_model vb = edge_target e)"
      if "(c, d) \<in> set (edge_keys ?g)" for c d
    proof (cases "(c, d) = (a, b)")
      case True
      with a b s t show ?thesis by (simp add: nk nl el)
    next
      case False
      with that have "(c, d) \<in> set (edge_keys g)" by (auto simp: ek)
      from wellFormed_edges [OF wf this] False show ?thesis
        by (auto simp: nk nl el)
    qed
  qed
  with r show ?thesis by blast
qed

text \<open>
  The result of \<^verbatim>\<open>updateVisibility\<close> on a well-formed graph, in one formula for the four
  combinations of \<^verbatim>\<open>showParams\<close> and \<^verbatim>\<open>focus\<close>.
\<close>

lemma updateVisibility_result:
  fixes this :: static_graph
  defines "g \<equiv> graph this"
  assumes wf: "wellFormed (graph this)"
  shows "\<exists>g' vg. updateVisibility this = Inr (this\<lparr>graph := g'\<rparr>, vg) \<and>
           node_keys g' = node_keys g \<and> edge_keys g' = edge_keys g \<and>
           (\<forall>k \<in> set (node_keys g).
              \<exists>v. node_label g k = Some v \<and>
                  node_label g' k = Some (v\<lparr>node_visible := shownNode this v\<rparr>)) \<and>
           (\<forall>k \<in> set (edge_keys g).
              \<exists>e. edge_label g k = Some e \<and>
                  edge_label g' k = Some (e\<lparr>edge_visible := shownEdge this k e\<rparr>)) \<and>
           set (node_keys vg) =
             {k \<in> set (node_keys g). \<exists>v. node_label g k = Some v \<and> shownNode this v} \<and>
           set (edge_keys vg) =
             {k \<in> set (edge_keys g). \<exists>e. edge_label g k = Some e \<and> shownEdge this k e} \<and>
           (\<forall>k \<in> set (node_keys vg). node_label vg k = node_label g' k) \<and>
           (\<forall>k \<in> set (edge_keys vg). edge_label vg k = edge_label g' k)"
proof -
  let ?nodes = "rev (node_keys g)" and ?edges = "rev (edge_keys g)"
  define pv where "pv = (\<lambda>v::resource_node. showParams this \<or> resourceType (node_model v) \<noteq> ''param'')"
  define pe where "pe = (\<lambda>e::edge. showParams this \<or>
                    (resourceType (edge_source e) \<noteq> ''param'' \<and>
                     resourceType (edge_target e) \<noteq> ''param''))"
  define fv where "fv = (\<lambda>v::resource_node. case focus this of
                        None \<Rightarrow> True
                      | Some f \<Rightarrow> model_id (node_model v) = f \<or>
                                  hasEdge (graph this) (model_id (node_model v)) f \<or>
                                  hasEdge (graph this) f (model_id (node_model v)))"
  define fe where "fe = (\<lambda>k::node_id \<times> node_id.
                          case focus this of None \<Rightarrow> True | Some f \<Rightarrow> fst k = f \<or> snd k = f)"
  have shown: "\<And>v. shownNode this v = (pv v \<and> fv v)"
    "\<And>k e. shownEdge this k e = (pe e \<and> fe k)"
    by (simp_all add: shownNode_def shownEdge_def pv_def pe_def fv_def fe_def)
  define f1 where "f1 = (\<lambda>v::resource_node. v\<lparr>node_visible := pv v\<rparr>)"
  define e1 where "e1 = (\<lambda>(k::node_id \<times> node_id) (e::edge). e\<lparr>edge_visible := pe e\<rparr>)"
  define gB where "gB = g\<lparr>node_label := (\<lambda>k. if k \<in> set (node_keys g)
                            then map_option f1 (node_label g k) else node_label g k),
                          edge_label := (\<lambda>k. if k \<in> set (edge_keys g)
                            then map_option (e1 k) (edge_label g k) else edge_label g k)\<rparr>"
  have wfg: "wellFormed g" using wf by (simp add: g_def)
  have dn: "distinct ?nodes" and de: "distinct ?edges"
    using wellFormed_distinct [OF wfg] by simp_all
  have ln: "\<forall>k \<in> set ?nodes. node_label g k \<noteq> None"
    using wellFormed_nodes [OF wfg] by auto
  have le: "\<forall>k \<in> set ?edges. edge_label g k \<noteq> None"
    using wellFormed_edges [OF wfg] by auto
  text \<open>The first half.\<close>
  have half1: "\<And>fa fb. fa = f1 \<Longrightarrow> fb = e1 undefined \<Longrightarrow>
      (case eachNode fa ?nodes g of Inl e \<Rightarrow> Inl e | Inr g1 \<Rightarrow> eachEdge fb ?edges g1) = Inr gB"
  proof -
    fix fa fb assume fa: "fa = f1" and fb: "fb = e1 undefined"
    have a: "eachNode fa ?nodes g =
        Inr (g\<lparr>node_label := (\<lambda>k. if k \<in> set ?nodes then map_option fa (node_label g k)
                                     else node_label g k)\<rparr>)"
      by (rule eachNode_result [OF dn ln])
    let ?g1 = "g\<lparr>node_label := (\<lambda>k. if k \<in> set ?nodes then map_option fa (node_label g k)
                                     else node_label g k)\<rparr>"
    have le1: "\<forall>k \<in> set ?edges. edge_label ?g1 k \<noteq> None"
      using le by simp
    have b: "eachEdge fb ?edges ?g1 =
        Inr (?g1\<lparr>edge_label := (\<lambda>k. if k \<in> set ?edges then map_option fb (edge_label ?g1 k)
                                     else edge_label ?g1 k)\<rparr>)"
      by (rule eachEdge_result [OF de le1])
    have "?g1\<lparr>edge_label := (\<lambda>k. if k \<in> set ?edges then map_option fb (edge_label ?g1 k)
                                     else edge_label ?g1 k)\<rparr> = gB"
      unfolding gB_def fa fb by (simp add: e1_def cong: if_cong)
    with a b show "(case eachNode fa ?nodes g of Inl e \<Rightarrow> Inl e
                    | Inr g1 \<Rightarrow> eachEdge fb ?edges g1) = Inr gB"
      by simp
  qed
  have ph1: "(if showParams this then
              (case eachNode (\<lambda>v. v\<lparr>node_visible := True\<rparr>) ?nodes g of
                 Inl e \<Rightarrow> Inl e
               | Inr g1 \<Rightarrow> eachEdge (\<lambda>v. v\<lparr>edge_visible := True\<rparr>) ?edges g1)
            else
              (case eachNode
                      (\<lambda>v. v\<lparr>node_visible := (resourceType (node_model v) \<noteq> ''param'')\<rparr>)
                      ?nodes g of
                 Inl e \<Rightarrow> Inl e
               | Inr g1 \<Rightarrow>
                   eachEdge
                     (\<lambda>v. v\<lparr>edge_visible := (resourceType (edge_source v) \<noteq> ''param'' \<and>
                                              resourceType (edge_target v) \<noteq> ''param'')\<rparr>)
                     ?edges g1)) = Inr gB"
  proof (cases "showParams this")
    case True
    then show ?thesis
      using half1 [of "\<lambda>v. v\<lparr>node_visible := True\<rparr>" "\<lambda>v. v\<lparr>edge_visible := True\<rparr>"]
      by (simp add: f1_def e1_def pv_def pe_def)
  next
    case False
    then show ?thesis
      using half1 [of "\<lambda>v. v\<lparr>node_visible := (resourceType (node_model v) \<noteq> ''param'')\<rparr>"
          "\<lambda>v. v\<lparr>edge_visible := (resourceType (edge_source v) \<noteq> ''param'' \<and>
                                   resourceType (edge_target v) \<noteq> ''param'')\<rparr>"]
      by (simp add: f1_def e1_def pv_def pe_def)
  qed
  have wfB: "wellFormed gB"
    unfolding gB_def by (rule wellFormed_relabel [OF wfg]) (simp_all add: f1_def e1_def)
  have keysB: "node_keys gB = node_keys g" "edge_keys gB = edge_keys g"
    by (simp_all add: gB_def)
  have nlB: "\<And>k v. k \<in> set (node_keys g) \<Longrightarrow>
      (node_label gB k = Some v) = (\<exists>v0. node_label g k = Some v0 \<and> v = f1 v0)"
    by (auto simp: gB_def)
  have elB: "\<And>k e. k \<in> set (edge_keys g) \<Longrightarrow>
      (edge_label gB k = Some e) = (\<exists>e0. edge_label g k = Some e0 \<and> e = e1 k e0)"
    by (auto simp: gB_def)
  define fN2 where "fN2 = (\<lambda>v::resource_node. v\<lparr>node_visible := (node_visible v \<and> fv v)\<rparr>)"
  define fE2 where
    "fE2 = (\<lambda>(k::node_id \<times> node_id) (e::edge). e\<lparr>edge_visible := (edge_visible e \<and> fe k)\<rparr>)"
  define g' where "g' = g\<lparr>node_label :=
                    (\<lambda>k. if k \<in> set (node_keys g)
                          then map_option (\<lambda>v. v\<lparr>node_visible := (pv v \<and> fv v)\<rparr>) (node_label g k)
                          else node_label g k),
                  edge_label :=
                    (\<lambda>k. if k \<in> set (edge_keys g)
                          then map_option (\<lambda>e. e\<lparr>edge_visible := (pe e \<and> fe k)\<rparr>) (edge_label g k)
                          else edge_label g k)\<rparr>"
  have fv_f1: "\<And>v. fv (f1 v) = fv v"
    by (simp add: fv_def f1_def split: option.splits)
  have comp: "\<And>v. fN2 (f1 v) = v\<lparr>node_visible := (pv v \<and> fv v)\<rparr>"
    unfolding fN2_def fv_f1 by (simp add: f1_def)
  have compE: "\<And>k e. fE2 k (e1 k e) = e\<lparr>edge_visible := (pe e \<and> fe k)\<rparr>"
    by (simp add: fE2_def e1_def)
  have relabel: "gB\<lparr>node_label := (\<lambda>k. if k \<in> set (node_keys gB)
                          then map_option fN2 (node_label gB k) else node_label gB k),
                    edge_label := (\<lambda>k. if k \<in> set (edge_keys gB)
                          then map_option (fE2 k) (edge_label gB k) else edge_label gB k)\<rparr> = g'"
    unfolding gB_def g'_def
    by (simp add: fun_eq_iff option.map_comp o_def comp compE cong: if_cong)
  have Nset: "{k \<in> set (node_keys gB). \<exists>v. node_label gB k = Some v \<and> node_visible (fN2 v)}
      = {k \<in> set (node_keys g). \<exists>v. node_label g k = Some v \<and> pv v \<and> fv v}"
    using nlB by (auto simp: keysB comp)
  have Eset: "{k \<in> set (edge_keys gB). \<exists>e. edge_label gB k = Some e \<and> edge_visible (fE2 k e)}
      = {k \<in> set (edge_keys g). \<exists>e. edge_label g k = Some e \<and> pe e \<and> fe k}"
    using elB by (auto simp: keysB compE)
  have labels: "\<forall>k \<in> set (node_keys g).
        \<exists>v. node_label g k = Some v \<and>
            node_label g' k = Some (v\<lparr>node_visible := shownNode this v\<rparr>)"
    "\<forall>k \<in> set (edge_keys g).
        \<exists>e. edge_label g k = Some e \<and>
            edge_label g' k = Some (e\<lparr>edge_visible := shownEdge this k e\<rparr>)"
  proof -
    show "\<forall>k \<in> set (node_keys g).
        \<exists>v. node_label g k = Some v \<and>
            node_label g' k = Some (v\<lparr>node_visible := shownNode this v\<rparr>)"
    proof
      fix k assume k: "k \<in> set (node_keys g)"
      from wellFormed_nodes [OF wfg k] obtain v where "node_label g k = Some v" by blast
      with k show "\<exists>v. node_label g k = Some v \<and>
            node_label g' k = Some (v\<lparr>node_visible := shownNode this v\<rparr>)"
        by (simp add: g'_def shown)
    qed
    show "\<forall>k \<in> set (edge_keys g).
        \<exists>e. edge_label g k = Some e \<and>
            edge_label g' k = Some (e\<lparr>edge_visible := shownEdge this k e\<rparr>)"
    proof
      fix k assume k: "k \<in> set (edge_keys g)"
      obtain a b where ab: "k = (a, b)" by (cases k)
      from wellFormed_edges [OF wfg, of a b] k ab obtain e where "edge_label g k = Some e"
        by blast
      with k show "\<exists>e. edge_label g k = Some e \<and>
            edge_label g' k = Some (e\<lparr>edge_visible := shownEdge this k e\<rparr>)"
        by (simp add: g'_def shown)
    qed
  qed
  have final: "\<exists>g' vg. updateVisibility this = Inr (this\<lparr>graph := g'\<rparr>, vg) \<and>
           node_keys g' = node_keys g \<and> edge_keys g' = edge_keys g \<and>
           (\<forall>k \<in> set (node_keys g).
              \<exists>v. node_label g k = Some v \<and>
                  node_label g' k = Some (v\<lparr>node_visible := shownNode this v\<rparr>)) \<and>
           (\<forall>k \<in> set (edge_keys g).
              \<exists>e. edge_label g k = Some e \<and>
                  edge_label g' k = Some (e\<lparr>edge_visible := shownEdge this k e\<rparr>)) \<and>
           set (node_keys vg) =
             {k \<in> set (node_keys g). \<exists>v. node_label g k = Some v \<and> shownNode this v} \<and>
           set (edge_keys vg) =
             {k \<in> set (edge_keys g). \<exists>e. edge_label g k = Some e \<and> shownEdge this k e} \<and>
           (\<forall>k \<in> set (node_keys vg). node_label vg k = node_label g' k) \<and>
           (\<forall>k \<in> set (edge_keys vg). edge_label vg k = edge_label g' k)"
    if "updateVisibility this = Inr (this\<lparr>graph := g'\<rparr>, vg)"
      and "set (node_keys vg) =
             {k \<in> set (node_keys g). \<exists>v. node_label g k = Some v \<and> pv v \<and> fv v}"
      and "set (edge_keys vg) =
             {k \<in> set (edge_keys g). \<exists>e. edge_label g k = Some e \<and> pe e \<and> fe k}"
      and "\<forall>k \<in> set (node_keys vg). node_label vg k = node_label g' k"
      and "\<forall>k \<in> set (edge_keys vg). edge_label vg k = edge_label g' k"
    for vg
  proof -
    have "node_keys g' = node_keys g" "edge_keys g' = edge_keys g"
      by (simp_all add: g'_def)
    with that labels show ?thesis
      unfolding shown by blast
  qed
  show ?thesis
  proof (cases "showParams this \<and> focus this = None")
    case True
    then have all: "\<And>v. pv v \<and> fv v" "\<And>e k. pe e \<and> fe k"
      by (simp_all add: pv_def fv_def pe_def fe_def)
    have eq: "gB = g'"
      unfolding gB_def g'_def by (simp add: f1_def e1_def all cong: if_cong)
    have r: "updateVisibility this = Inr (this\<lparr>graph := g'\<rparr>, g')"
      unfolding updateVisibility_def Let_def g_def [symmetric] ph1
      using True by (simp add: eq)
    have A: "set (node_keys g') =
        {k \<in> set (node_keys g). \<exists>v. node_label g k = Some v \<and> pv v \<and> fv v}"
      using wellFormed_nodes [OF wfg] by (auto simp: g'_def all)
    have B: "set (edge_keys g') =
        {k \<in> set (edge_keys g). \<exists>e. edge_label g k = Some e \<and> pe e \<and> fe k}"
      using wellFormed_edges [OF wfg] by (auto simp: g'_def all)
    have C: "\<forall>k \<in> set (node_keys g'). node_label g' k = node_label g' k"
      "\<forall>k \<in> set (edge_keys g'). edge_label g' k = edge_label g' k"
      by simp_all
    show ?thesis
      by (rule final [OF r A B C])
  next
    case False
    have ends: "(\<exists>v. node_label gB a = Some v \<and> node_visible (fN2 v)) \<and>
                (\<exists>v. node_label gB b = Some v \<and> node_visible (fN2 v))"
      if ab: "(a, b) \<in> set (edge_keys gB)" and lab: "edge_label gB (a, b) = Some e"
        and vis: "edge_visible (fE2 (a, b) e)" for a b e
    proof -
      from ab have abg: "(a, b) \<in> set (edge_keys g)" by (simp add: keysB)
      from wellFormed_edges [OF wfg abg] obtain e0 va vb where
        e0: "edge_label g (a, b) = Some e0" and va: "node_label g a = Some va"
        and vb: "node_label g b = Some vb" and ma: "node_model va = edge_source e0"
        and mb: "node_model vb = edge_target e0" and ina: "a \<in> set (node_keys g)"
        and inb: "b \<in> set (node_keys g)"
        by blast
      from lab e0 abg have e: "e = e1 (a, b) e0" by (simp add: gB_def)
      from vis e have pe: "pe e0" and fe: "fe (a, b)"
        by (simp_all add: fE2_def e1_def)
      from wellFormed_nodes [OF wfg ina] va have ida: "model_id (node_model va) = a" by simp
      from wellFormed_nodes [OF wfg inb] vb have idb: "model_id (node_model vb) = b" by simp
      have "pv va" "pv vb"
        using pe ma mb by (auto simp: pv_def pe_def)
      moreover have "fv va" "fv vb"
        using fe ida idb abg
        by (auto simp: fv_def fe_def g_def hasEdge_def split: option.splits)
      moreover have "node_label gB a = Some (f1 va)" "node_label gB b = Some (f1 vb)"
        using va vb ina inb by (simp_all add: gB_def)
      ultimately show ?thesis
        by (simp add: comp)
    qed
    have fNm: "\<And>v. node_model (fN2 v) = node_model v"
      by (simp add: fN2_def)
    have endsO: "\<forall>a b e. (a, b) \<in> set (edge_keys gB) \<and> edge_label gB (a, b) = Some e \<and>
                 edge_visible (fE2 (a, b) e) \<longrightarrow>
                 (\<exists>v. node_label gB a = Some v \<and> node_visible (fN2 v)) \<and>
                 (\<exists>v. node_label gB b = Some v \<and> node_visible (fN2 v))"
      using ends by blast
    from second_half [of gB fN2 fE2, OF wfB fNm endsO]
    obtain g1 vg1 g2 vg where
      c1: "collectNodes fN2 (rev (node_keys gB)) gB newGraph = Inr (g1, vg1)"
      and c2: "collectEdges fE2 (rev (edge_keys gB)) g1 vg1 = Inr (g2, vg)"
      and g2: "g2 = gB\<lparr>node_label := (\<lambda>k. if k \<in> set (node_keys gB)
                          then map_option fN2 (node_label gB k) else node_label gB k),
                    edge_label := (\<lambda>k. if k \<in> set (edge_keys gB)
                          then map_option (fE2 k) (edge_label gB k) else edge_label gB k)\<rparr>"
      and nk: "set (node_keys vg) =
             {k \<in> set (node_keys gB). \<exists>v. node_label gB k = Some v \<and> node_visible (fN2 v)}"
      and ek: "set (edge_keys vg) =
             {k \<in> set (edge_keys gB). \<exists>e. edge_label gB k = Some e \<and> edge_visible (fE2 k e)}"
      and nl: "\<forall>k \<in> set (node_keys vg). node_label vg k = node_label g2 k"
      and el: "\<forall>k \<in> set (edge_keys vg). edge_label vg k = edge_label g2 k"
      by blast
    have g2': "g2 = g'" using g2 relabel by simp
    have r: "updateVisibility this = Inr (this\<lparr>graph := g'\<rparr>, vg)"
    proof (cases "focus this")
      case None
      have "fN2 = (\<lambda>v. v)" "fE2 = (\<lambda>k v. v)"
        using None by (simp_all add: fN2_def fE2_def fv_def fe_def fun_eq_iff)
      with c1 c2 False None g2' show ?thesis
        unfolding updateVisibility_def Let_def g_def [symmetric] ph1
        by (simp add: keysB)
    next
      case (Some f)
      have "fN2 = (\<lambda>v. v\<lparr>node_visible :=
                                 (node_visible v \<and>
                                  (model_id (node_model v) = f \<or>
                                   hasEdge gB (model_id (node_model v)) f \<or>
                                   hasEdge gB f (model_id (node_model v))))\<rparr>)"
        using Some by (simp add: fN2_def fv_def fun_eq_iff hasEdge_def keysB g_def)
      moreover have "fE2 = (\<lambda>k v. v\<lparr>edge_visible :=
                                        (edge_visible v \<and> (fst k = f \<or> snd k = f))\<rparr>)"
        using Some by (simp add: fE2_def fe_def fun_eq_iff)
      ultimately show ?thesis
        using c1 c2 False Some g2'
        unfolding updateVisibility_def Let_def g_def [symmetric] ph1
        by (simp add: keysB)
    qed
    show ?thesis
      by (rule final [OF r nk [unfolded Nset] ek [unfolded Eset] nl [unfolded g2']
            el [unfolded g2']])
  qed
qed

text \<open>
  Claim C3. For every well-formed graph state with \<^verbatim>\<open>showParams\<close> false and no focus,
  \<^verbatim>\<open>updateVisibility\<close> returns, and the returned graph has exactly the nodes of the full
  graph whose \<^verbatim>\<open>resourceType\<close> is not \<^verbatim>\<open>"param"\<close> and exactly the edges of the full graph
  whose source and target \<^verbatim>\<open>resourceType\<close> are both not \<^verbatim>\<open>"param"\<close>; each of them has its
  \<^verbatim>\<open>visible\<close> flag set to true. In the full graph every node has \<^verbatim>\<open>visible\<close> set to whether
  it is not a param and every edge to whether neither end is a param, so the param
  nodes and the edges at a param have \<^verbatim>\<open>visible\<close> false.
\<close>

theorem updateVisibility_hides_params:
  assumes "wellFormed (graph this)" and "\<not> showParams this" and "focus this = None"
  shows "case updateVisibility this of
           Inl e \<Rightarrow> False
         | Inr (this', visibleGraph) \<Rightarrow>
             set (node_keys visibleGraph) =
               {k \<in> set (node_keys (graph this)).
                  \<exists>v. node_label (graph this) k = Some v \<and>
                      resourceType (node_model v) \<noteq> ''param''} \<and>
             set (edge_keys visibleGraph) =
               {k \<in> set (edge_keys (graph this)).
                  \<exists>e. edge_label (graph this) k = Some e \<and>
                      resourceType (edge_source e) \<noteq> ''param'' \<and>
                      resourceType (edge_target e) \<noteq> ''param''} \<and>
             (\<forall>k \<in> set (node_keys visibleGraph).
                \<exists>v. node_label visibleGraph k = Some v \<and> node_visible v \<and>
                    node_label (graph this') k = Some v) \<and>
             (\<forall>k \<in> set (edge_keys visibleGraph).
                \<exists>e. edge_label visibleGraph k = Some e \<and> edge_visible e \<and>
                    edge_label (graph this') k = Some e) \<and>
             node_keys (graph this') = node_keys (graph this) \<and>
             edge_keys (graph this') = edge_keys (graph this) \<and>
             (\<forall>k \<in> set (node_keys (graph this)).
                \<exists>v. node_label (graph this) k = Some v \<and>
                    node_label (graph this') k =
                      Some (v\<lparr>node_visible := (resourceType (node_model v) \<noteq> ''param'')\<rparr>)) \<and>
             (\<forall>k \<in> set (edge_keys (graph this)).
                \<exists>e. edge_label (graph this) k = Some e \<and>
                    edge_label (graph this') k =
                      Some (e\<lparr>edge_visible := (resourceType (edge_source e) \<noteq> ''param'' \<and>
                                               resourceType (edge_target e) \<noteq> ''param'')\<rparr>))"
proof -
  let ?g = "graph this"
  from updateVisibility_result [OF assms(1)]
  obtain g' vg where r: "updateVisibility this = Inr (this\<lparr>graph := g'\<rparr>, vg)"
    and keys: "node_keys g' = node_keys ?g" "edge_keys g' = edge_keys ?g"
    and nlab: "\<forall>k \<in> set (node_keys ?g).
              \<exists>v. node_label ?g k = Some v \<and>
                  node_label g' k = Some (v\<lparr>node_visible := shownNode this v\<rparr>)"
    and elab: "\<forall>k \<in> set (edge_keys ?g).
              \<exists>e. edge_label ?g k = Some e \<and>
                  edge_label g' k = Some (e\<lparr>edge_visible := shownEdge this k e\<rparr>)"
    and nk: "set (node_keys vg) =
             {k \<in> set (node_keys ?g). \<exists>v. node_label ?g k = Some v \<and> shownNode this v}"
    and ek: "set (edge_keys vg) =
             {k \<in> set (edge_keys ?g). \<exists>e. edge_label ?g k = Some e \<and> shownEdge this k e}"
    and nl: "\<forall>k \<in> set (node_keys vg). node_label vg k = node_label g' k"
    and el: "\<forall>k \<in> set (edge_keys vg). edge_label vg k = edge_label g' k"
    by blast
  have sn: "\<And>v. shownNode this v = (resourceType (node_model v) \<noteq> ''param'')"
    using assms(2,3) by (simp add: shownNode_def)
  have se: "\<And>k e. shownEdge this k e =
      (resourceType (edge_source e) \<noteq> ''param'' \<and> resourceType (edge_target e) \<noteq> ''param'')"
    using assms(2,3) by (simp add: shownEdge_def)
  have a: "\<forall>k \<in> set (node_keys vg).
            \<exists>v. node_label vg k = Some v \<and> node_visible v \<and> node_label g' k = Some v"
  proof
    fix k assume k: "k \<in> set (node_keys vg)"
    with nk obtain v where kin: "k \<in> set (node_keys ?g)" and v: "node_label ?g k = Some v"
      and sh: "shownNode this v" by auto
    from nlab kin v have "node_label g' k = Some (v\<lparr>node_visible := shownNode this v\<rparr>)"
      by auto
    with nl k sh
    show "\<exists>v. node_label vg k = Some v \<and> node_visible v \<and> node_label g' k = Some v"
      by simp
  qed
  have b: "\<forall>k \<in> set (edge_keys vg).
            \<exists>e. edge_label vg k = Some e \<and> edge_visible e \<and> edge_label g' k = Some e"
  proof
    fix k assume k: "k \<in> set (edge_keys vg)"
    with ek obtain e where kin: "k \<in> set (edge_keys ?g)" and e: "edge_label ?g k = Some e"
      and sh: "shownEdge this k e" by auto
    from elab kin e have "edge_label g' k = Some (e\<lparr>edge_visible := shownEdge this k e\<rparr>)"
      by auto
    with el k sh
    show "\<exists>e. edge_label vg k = Some e \<and> edge_visible e \<and> edge_label g' k = Some e"
      by simp
  qed
  from nk ek a b keys nlab elab show ?thesis
    unfolding sn se by (simp add: r)
qed

text \<open>
  Claim C2. For every well-formed graph state with a focus node \<open>f\<close>,
  \<^verbatim>\<open>updateVisibility\<close> returns, and the returned graph contains only nodes of the full
  graph that are \<open>f\<close> itself or have an edge to or from \<open>f\<close> in the full graph, and only
  edges of the full graph whose source or target is \<open>f\<close>; every returned node and edge
  has a label that satisfies the parameter-visibility condition in force: any resource
  when \<^verbatim>\<open>showParams\<close> is true, otherwise a node that is not a param and an edge with no
  param at either end.
\<close>

theorem updateVisibility_focus:
  assumes "wellFormed (graph this)" and "focus this = Some f"
  shows "case updateVisibility this of
           Inl e \<Rightarrow> False
         | Inr (this', visibleGraph) \<Rightarrow>
             (\<forall>k \<in> set (node_keys visibleGraph).
                k \<in> set (node_keys (graph this)) \<and>
                (k = f \<or> hasEdge (graph this) k f \<or> hasEdge (graph this) f k) \<and>
                (\<exists>v. node_label visibleGraph k = Some v \<and> model_id (node_model v) = k \<and>
                     (showParams this \<or> resourceType (node_model v) \<noteq> ''param''))) \<and>
             (\<forall>k \<in> set (edge_keys visibleGraph).
                k \<in> set (edge_keys (graph this)) \<and>
                (fst k = f \<or> snd k = f) \<and>
                (\<exists>e. edge_label visibleGraph k = Some e \<and>
                     (showParams this \<or>
                      (resourceType (edge_source e) \<noteq> ''param'' \<and>
                       resourceType (edge_target e) \<noteq> ''param''))))"
proof -
  let ?g = "graph this"
  from updateVisibility_result [OF assms(1)]
  obtain g' vg where r: "updateVisibility this = Inr (this\<lparr>graph := g'\<rparr>, vg)"
    and keys: "node_keys g' = node_keys ?g" "edge_keys g' = edge_keys ?g"
    and nlab: "\<forall>k \<in> set (node_keys ?g).
              \<exists>v. node_label ?g k = Some v \<and>
                  node_label g' k = Some (v\<lparr>node_visible := shownNode this v\<rparr>)"
    and elab: "\<forall>k \<in> set (edge_keys ?g).
              \<exists>e. edge_label ?g k = Some e \<and>
                  edge_label g' k = Some (e\<lparr>edge_visible := shownEdge this k e\<rparr>)"
    and nk: "set (node_keys vg) =
             {k \<in> set (node_keys ?g). \<exists>v. node_label ?g k = Some v \<and> shownNode this v}"
    and ek: "set (edge_keys vg) =
             {k \<in> set (edge_keys ?g). \<exists>e. edge_label ?g k = Some e \<and> shownEdge this k e}"
    and nl: "\<forall>k \<in> set (node_keys vg). node_label vg k = node_label g' k"
    and el: "\<forall>k \<in> set (edge_keys vg). edge_label vg k = edge_label g' k"
    by blast
  have sn: "\<And>v. shownNode this v =
      ((showParams this \<or> resourceType (node_model v) \<noteq> ''param'') \<and>
       (model_id (node_model v) = f \<or> hasEdge ?g (model_id (node_model v)) f \<or>
        hasEdge ?g f (model_id (node_model v))))"
    using assms(2) by (simp add: shownNode_def)
  have se: "\<And>k e. shownEdge this k e =
      ((showParams this \<or>
        (resourceType (edge_source e) \<noteq> ''param'' \<and> resourceType (edge_target e) \<noteq> ''param'')) \<and>
       (fst k = f \<or> snd k = f))"
    using assms(2) by (simp add: shownEdge_def)
  have a: "\<forall>k \<in> set (node_keys vg).
             k \<in> set (node_keys ?g) \<and> (k = f \<or> hasEdge ?g k f \<or> hasEdge ?g f k) \<and>
             (\<exists>v. node_label vg k = Some v \<and> model_id (node_model v) = k \<and>
                  (showParams this \<or> resourceType (node_model v) \<noteq> ''param''))"
  proof
    fix k assume k: "k \<in> set (node_keys vg)"
    with nk obtain v where kin: "k \<in> set (node_keys ?g)" and v: "node_label ?g k = Some v"
      and sh: "shownNode this v" by auto
    from wellFormed_nodes [OF assms(1) kin] v have id: "model_id (node_model v) = k" by simp
    from nlab kin v have "node_label g' k = Some (v\<lparr>node_visible := shownNode this v\<rparr>)"
      by auto
    with nl k have "node_label vg k = Some (v\<lparr>node_visible := shownNode this v\<rparr>)" by simp
    with kin sh id
    show "k \<in> set (node_keys ?g) \<and> (k = f \<or> hasEdge ?g k f \<or> hasEdge ?g f k) \<and>
             (\<exists>v. node_label vg k = Some v \<and> model_id (node_model v) = k \<and>
                  (showParams this \<or> resourceType (node_model v) \<noteq> ''param''))"
      unfolding sn by auto
  qed
  have b: "\<forall>k \<in> set (edge_keys vg).
             k \<in> set (edge_keys ?g) \<and> (fst k = f \<or> snd k = f) \<and>
             (\<exists>e. edge_label vg k = Some e \<and>
                  (showParams this \<or>
                   (resourceType (edge_source e) \<noteq> ''param'' \<and>
                    resourceType (edge_target e) \<noteq> ''param'')))"
  proof
    fix k assume k: "k \<in> set (edge_keys vg)"
    with ek obtain e where kin: "k \<in> set (edge_keys ?g)" and e: "edge_label ?g k = Some e"
      and sh: "shownEdge this k e" by auto
    from elab kin e have "edge_label g' k = Some (e\<lparr>edge_visible := shownEdge this k e\<rparr>)"
      by auto
    with el k have "edge_label vg k = Some (e\<lparr>edge_visible := shownEdge this k e\<rparr>)" by simp
    with kin sh
    show "k \<in> set (edge_keys ?g) \<and> (fst k = f \<or> snd k = f) \<and>
             (\<exists>e. edge_label vg k = Some e \<and>
                  (showParams this \<or>
                   (resourceType (edge_source e) \<noteq> ''param'' \<and>
                    resourceType (edge_target e) \<noteq> ''param'')))"
      unfolding se by auto
  qed
  from a b show ?thesis
    by (simp add: r)
qed

text \<open>
  Witness for C3: a node \<^verbatim>\<open>c1\<close> that publishes the topic \<^verbatim>\<open>c2\<close> and reads the parameter
  \<^verbatim>\<open>c3\<close>, with parameters hidden and no focus. The returned graph has the node, the
  topic and the edge between them.
\<close>

theorem updateVisibility_hides_params_witness:
  "wellFormed (\<lparr>node_keys = [''c1'', ''c2'', ''c3''],
      node_label =
        [''c1'' \<mapsto> \<lparr>node_model = \<lparr>model_id = ''c1'', resourceType = ''node''\<rparr>,
                    node_visible = False\<rparr>,
         ''c2'' \<mapsto> \<lparr>node_model = \<lparr>model_id = ''c2'', resourceType = ''topic''\<rparr>,
                    node_visible = False\<rparr>,
         ''c3'' \<mapsto> \<lparr>node_model = \<lparr>model_id = ''c3'', resourceType = ''param''\<rparr>,
                    node_visible = False\<rparr>],
      edge_keys = [(''c1'', ''c2''), (''c3'', ''c1'')],
      edge_label =
        [(''c1'', ''c2'') \<mapsto>
           \<lparr>edge_source = \<lparr>model_id = ''c1'', resourceType = ''node''\<rparr>,
            edge_target = \<lparr>model_id = ''c2'', resourceType = ''topic''\<rparr>,
            edge_visible = False\<rparr>,
         (''c3'', ''c1'') \<mapsto>
           \<lparr>edge_source = \<lparr>model_id = ''c3'', resourceType = ''param''\<rparr>,
            edge_target = \<lparr>model_id = ''c1'', resourceType = ''node''\<rparr>,
            edge_visible = False\<rparr>]\<rparr>) \<and>
   \<not> isl (updateVisibility \<lparr>graph = (\<lparr>node_keys = [''c1'', ''c2'', ''c3''],
      node_label =
        [''c1'' \<mapsto> \<lparr>node_model = \<lparr>model_id = ''c1'', resourceType = ''node''\<rparr>,
                    node_visible = False\<rparr>,
         ''c2'' \<mapsto> \<lparr>node_model = \<lparr>model_id = ''c2'', resourceType = ''topic''\<rparr>,
                    node_visible = False\<rparr>,
         ''c3'' \<mapsto> \<lparr>node_model = \<lparr>model_id = ''c3'', resourceType = ''param''\<rparr>,
                    node_visible = False\<rparr>],
      edge_keys = [(''c1'', ''c2''), (''c3'', ''c1'')],
      edge_label =
        [(''c1'', ''c2'') \<mapsto>
           \<lparr>edge_source = \<lparr>model_id = ''c1'', resourceType = ''node''\<rparr>,
            edge_target = \<lparr>model_id = ''c2'', resourceType = ''topic''\<rparr>,
            edge_visible = False\<rparr>,
         (''c3'', ''c1'') \<mapsto>
           \<lparr>edge_source = \<lparr>model_id = ''c3'', resourceType = ''param''\<rparr>,
            edge_target = \<lparr>model_id = ''c1'', resourceType = ''node''\<rparr>,
            edge_visible = False\<rparr>]\<rparr>), showParams = False, focus = None\<rparr>) \<and>
   set (node_keys (snd (projr (updateVisibility
     \<lparr>graph = (\<lparr>node_keys = [''c1'', ''c2'', ''c3''],
      node_label =
        [''c1'' \<mapsto> \<lparr>node_model = \<lparr>model_id = ''c1'', resourceType = ''node''\<rparr>,
                    node_visible = False\<rparr>,
         ''c2'' \<mapsto> \<lparr>node_model = \<lparr>model_id = ''c2'', resourceType = ''topic''\<rparr>,
                    node_visible = False\<rparr>,
         ''c3'' \<mapsto> \<lparr>node_model = \<lparr>model_id = ''c3'', resourceType = ''param''\<rparr>,
                    node_visible = False\<rparr>],
      edge_keys = [(''c1'', ''c2''), (''c3'', ''c1'')],
      edge_label =
        [(''c1'', ''c2'') \<mapsto>
           \<lparr>edge_source = \<lparr>model_id = ''c1'', resourceType = ''node''\<rparr>,
            edge_target = \<lparr>model_id = ''c2'', resourceType = ''topic''\<rparr>,
            edge_visible = False\<rparr>,
         (''c3'', ''c1'') \<mapsto>
           \<lparr>edge_source = \<lparr>model_id = ''c3'', resourceType = ''param''\<rparr>,
            edge_target = \<lparr>model_id = ''c1'', resourceType = ''node''\<rparr>,
            edge_visible = False\<rparr>]\<rparr>), showParams = False, focus = None\<rparr>)))) = {''c1'', ''c2''} \<and>
   set (edge_keys (snd (projr (updateVisibility
     \<lparr>graph = (\<lparr>node_keys = [''c1'', ''c2'', ''c3''],
      node_label =
        [''c1'' \<mapsto> \<lparr>node_model = \<lparr>model_id = ''c1'', resourceType = ''node''\<rparr>,
                    node_visible = False\<rparr>,
         ''c2'' \<mapsto> \<lparr>node_model = \<lparr>model_id = ''c2'', resourceType = ''topic''\<rparr>,
                    node_visible = False\<rparr>,
         ''c3'' \<mapsto> \<lparr>node_model = \<lparr>model_id = ''c3'', resourceType = ''param''\<rparr>,
                    node_visible = False\<rparr>],
      edge_keys = [(''c1'', ''c2''), (''c3'', ''c1'')],
      edge_label =
        [(''c1'', ''c2'') \<mapsto>
           \<lparr>edge_source = \<lparr>model_id = ''c1'', resourceType = ''node''\<rparr>,
            edge_target = \<lparr>model_id = ''c2'', resourceType = ''topic''\<rparr>,
            edge_visible = False\<rparr>,
         (''c3'', ''c1'') \<mapsto>
           \<lparr>edge_source = \<lparr>model_id = ''c3'', resourceType = ''param''\<rparr>,
            edge_target = \<lparr>model_id = ''c1'', resourceType = ''node''\<rparr>,
            edge_visible = False\<rparr>]\<rparr>), showParams = False, focus = None\<rparr>)))) = {(''c1'', ''c2'')}"
proof -
  define G where "G = (\<lparr>node_keys = [''c1'', ''c2'', ''c3''],
      node_label =
        [''c1'' \<mapsto> \<lparr>node_model = \<lparr>model_id = ''c1'', resourceType = ''node''\<rparr>,
                    node_visible = False\<rparr>,
         ''c2'' \<mapsto> \<lparr>node_model = \<lparr>model_id = ''c2'', resourceType = ''topic''\<rparr>,
                    node_visible = False\<rparr>,
         ''c3'' \<mapsto> \<lparr>node_model = \<lparr>model_id = ''c3'', resourceType = ''param''\<rparr>,
                    node_visible = False\<rparr>],
      edge_keys = [(''c1'', ''c2''), (''c3'', ''c1'')],
      edge_label =
        [(''c1'', ''c2'') \<mapsto>
           \<lparr>edge_source = \<lparr>model_id = ''c1'', resourceType = ''node''\<rparr>,
            edge_target = \<lparr>model_id = ''c2'', resourceType = ''topic''\<rparr>,
            edge_visible = False\<rparr>,
         (''c3'', ''c1'') \<mapsto>
           \<lparr>edge_source = \<lparr>model_id = ''c3'', resourceType = ''param''\<rparr>,
            edge_target = \<lparr>model_id = ''c1'', resourceType = ''node''\<rparr>,
            edge_visible = False\<rparr>]\<rparr>)"
  define S where "S = \<lparr>graph = G, showParams = False, focus = None\<rparr>"
  have wf: "wellFormed G"
    by (simp add: wellFormed_def G_def)
  have n: "{k \<in> set (node_keys G).
             \<exists>v. node_label G k = Some v \<and> resourceType (node_model v) \<noteq> ''param''}
           = {''c1'', ''c2''}"
    unfolding G_def by auto
  have e: "{k \<in> set (edge_keys G).
             \<exists>e. edge_label G k = Some e \<and> resourceType (edge_source e) \<noteq> ''param'' \<and>
                 resourceType (edge_target e) \<noteq> ''param''}
           = {(''c1'', ''c2'')}"
    unfolding G_def by auto
  have S: "graph S = G" "\<not> showParams S" "focus S = None"
    by (simp_all add: S_def)
  note T = updateVisibility_hides_params [of S, unfolded S(1), OF wf S(2,3)]
  have "\<not> isl (updateVisibility S) \<and>
        set (node_keys (snd (projr (updateVisibility S)))) = {''c1'', ''c2''} \<and>
        set (edge_keys (snd (projr (updateVisibility S)))) = {(''c1'', ''c2'')}"
  proof (cases "updateVisibility S")
    case (Inl err)
    with T show ?thesis by simp
  next
    case (Inr p)
    obtain this' vg where p: "p = (this', vg)" by (cases p)
    from T have "set (node_keys vg) = {''c1'', ''c2''} \<and> set (edge_keys vg) = {(''c1'', ''c2'')}"
      unfolding Inr p n e by simp
    with Inr p show ?thesis by simp
  qed
  with wf show ?thesis
    unfolding S_def G_def by simp
qed

text \<open>
  Witness for C2: the same graph with parameters shown and the focus on the topic
  \<^verbatim>\<open>c2\<close>. The returned graph has at most the topic, the node that publishes it and the
  edge between them.
\<close>

theorem updateVisibility_focus_witness:
  "wellFormed (\<lparr>node_keys = [''c1'', ''c2'', ''c3''],
      node_label =
        [''c1'' \<mapsto> \<lparr>node_model = \<lparr>model_id = ''c1'', resourceType = ''node''\<rparr>,
                    node_visible = False\<rparr>,
         ''c2'' \<mapsto> \<lparr>node_model = \<lparr>model_id = ''c2'', resourceType = ''topic''\<rparr>,
                    node_visible = False\<rparr>,
         ''c3'' \<mapsto> \<lparr>node_model = \<lparr>model_id = ''c3'', resourceType = ''param''\<rparr>,
                    node_visible = False\<rparr>],
      edge_keys = [(''c1'', ''c2''), (''c3'', ''c1'')],
      edge_label =
        [(''c1'', ''c2'') \<mapsto>
           \<lparr>edge_source = \<lparr>model_id = ''c1'', resourceType = ''node''\<rparr>,
            edge_target = \<lparr>model_id = ''c2'', resourceType = ''topic''\<rparr>,
            edge_visible = False\<rparr>,
         (''c3'', ''c1'') \<mapsto>
           \<lparr>edge_source = \<lparr>model_id = ''c3'', resourceType = ''param''\<rparr>,
            edge_target = \<lparr>model_id = ''c1'', resourceType = ''node''\<rparr>,
            edge_visible = False\<rparr>]\<rparr>) \<and>
   \<not> isl (updateVisibility \<lparr>graph = (\<lparr>node_keys = [''c1'', ''c2'', ''c3''],
      node_label =
        [''c1'' \<mapsto> \<lparr>node_model = \<lparr>model_id = ''c1'', resourceType = ''node''\<rparr>,
                    node_visible = False\<rparr>,
         ''c2'' \<mapsto> \<lparr>node_model = \<lparr>model_id = ''c2'', resourceType = ''topic''\<rparr>,
                    node_visible = False\<rparr>,
         ''c3'' \<mapsto> \<lparr>node_model = \<lparr>model_id = ''c3'', resourceType = ''param''\<rparr>,
                    node_visible = False\<rparr>],
      edge_keys = [(''c1'', ''c2''), (''c3'', ''c1'')],
      edge_label =
        [(''c1'', ''c2'') \<mapsto>
           \<lparr>edge_source = \<lparr>model_id = ''c1'', resourceType = ''node''\<rparr>,
            edge_target = \<lparr>model_id = ''c2'', resourceType = ''topic''\<rparr>,
            edge_visible = False\<rparr>,
         (''c3'', ''c1'') \<mapsto>
           \<lparr>edge_source = \<lparr>model_id = ''c3'', resourceType = ''param''\<rparr>,
            edge_target = \<lparr>model_id = ''c1'', resourceType = ''node''\<rparr>,
            edge_visible = False\<rparr>]\<rparr>), showParams = True, focus = Some ''c2''\<rparr>) \<and>
   set (node_keys (snd (projr (updateVisibility
     \<lparr>graph = (\<lparr>node_keys = [''c1'', ''c2'', ''c3''],
      node_label =
        [''c1'' \<mapsto> \<lparr>node_model = \<lparr>model_id = ''c1'', resourceType = ''node''\<rparr>,
                    node_visible = False\<rparr>,
         ''c2'' \<mapsto> \<lparr>node_model = \<lparr>model_id = ''c2'', resourceType = ''topic''\<rparr>,
                    node_visible = False\<rparr>,
         ''c3'' \<mapsto> \<lparr>node_model = \<lparr>model_id = ''c3'', resourceType = ''param''\<rparr>,
                    node_visible = False\<rparr>],
      edge_keys = [(''c1'', ''c2''), (''c3'', ''c1'')],
      edge_label =
        [(''c1'', ''c2'') \<mapsto>
           \<lparr>edge_source = \<lparr>model_id = ''c1'', resourceType = ''node''\<rparr>,
            edge_target = \<lparr>model_id = ''c2'', resourceType = ''topic''\<rparr>,
            edge_visible = False\<rparr>,
         (''c3'', ''c1'') \<mapsto>
           \<lparr>edge_source = \<lparr>model_id = ''c3'', resourceType = ''param''\<rparr>,
            edge_target = \<lparr>model_id = ''c1'', resourceType = ''node''\<rparr>,
            edge_visible = False\<rparr>]\<rparr>), showParams = True, focus = Some ''c2''\<rparr>)))) \<subseteq> {''c1'', ''c2''} \<and>
   set (edge_keys (snd (projr (updateVisibility
     \<lparr>graph = (\<lparr>node_keys = [''c1'', ''c2'', ''c3''],
      node_label =
        [''c1'' \<mapsto> \<lparr>node_model = \<lparr>model_id = ''c1'', resourceType = ''node''\<rparr>,
                    node_visible = False\<rparr>,
         ''c2'' \<mapsto> \<lparr>node_model = \<lparr>model_id = ''c2'', resourceType = ''topic''\<rparr>,
                    node_visible = False\<rparr>,
         ''c3'' \<mapsto> \<lparr>node_model = \<lparr>model_id = ''c3'', resourceType = ''param''\<rparr>,
                    node_visible = False\<rparr>],
      edge_keys = [(''c1'', ''c2''), (''c3'', ''c1'')],
      edge_label =
        [(''c1'', ''c2'') \<mapsto>
           \<lparr>edge_source = \<lparr>model_id = ''c1'', resourceType = ''node''\<rparr>,
            edge_target = \<lparr>model_id = ''c2'', resourceType = ''topic''\<rparr>,
            edge_visible = False\<rparr>,
         (''c3'', ''c1'') \<mapsto>
           \<lparr>edge_source = \<lparr>model_id = ''c3'', resourceType = ''param''\<rparr>,
            edge_target = \<lparr>model_id = ''c1'', resourceType = ''node''\<rparr>,
            edge_visible = False\<rparr>]\<rparr>), showParams = True, focus = Some ''c2''\<rparr>)))) \<subseteq> {(''c1'', ''c2'')}"
proof -
  define G where "G = (\<lparr>node_keys = [''c1'', ''c2'', ''c3''],
      node_label =
        [''c1'' \<mapsto> \<lparr>node_model = \<lparr>model_id = ''c1'', resourceType = ''node''\<rparr>,
                    node_visible = False\<rparr>,
         ''c2'' \<mapsto> \<lparr>node_model = \<lparr>model_id = ''c2'', resourceType = ''topic''\<rparr>,
                    node_visible = False\<rparr>,
         ''c3'' \<mapsto> \<lparr>node_model = \<lparr>model_id = ''c3'', resourceType = ''param''\<rparr>,
                    node_visible = False\<rparr>],
      edge_keys = [(''c1'', ''c2''), (''c3'', ''c1'')],
      edge_label =
        [(''c1'', ''c2'') \<mapsto>
           \<lparr>edge_source = \<lparr>model_id = ''c1'', resourceType = ''node''\<rparr>,
            edge_target = \<lparr>model_id = ''c2'', resourceType = ''topic''\<rparr>,
            edge_visible = False\<rparr>,
         (''c3'', ''c1'') \<mapsto>
           \<lparr>edge_source = \<lparr>model_id = ''c3'', resourceType = ''param''\<rparr>,
            edge_target = \<lparr>model_id = ''c1'', resourceType = ''node''\<rparr>,
            edge_visible = False\<rparr>]\<rparr>)"
  define S where "S = \<lparr>graph = G, showParams = True, focus = Some ''c2''\<rparr>"
  have wf: "wellFormed G"
    by (simp add: wellFormed_def G_def)
  have ek: "set (edge_keys G) = {(''c1'', ''c2''), (''c3'', ''c1'')}"
    by (simp add: G_def)
  have S: "graph S = G" "focus S = Some ''c2''"
    by (simp_all add: S_def)
  note T = updateVisibility_focus [of S "''c2''", unfolded S(1), OF wf S(2)]
  have "\<not> isl (updateVisibility S) \<and>
        set (node_keys (snd (projr (updateVisibility S)))) \<subseteq> {''c1'', ''c2''} \<and>
        set (edge_keys (snd (projr (updateVisibility S)))) \<subseteq> {(''c1'', ''c2'')}"
  proof (cases "updateVisibility S")
    case (Inl err)
    with T show ?thesis by simp
  next
    case (Inr p)
    obtain this' vg where p: "p = (this', vg)" by (cases p)
    note X = T [unfolded Inr p sum.case prod.case]
    from X have n: "\<forall>k \<in> set (node_keys vg). k = ''c2'' \<or> hasEdge G k ''c2'' \<or> hasEdge G ''c2'' k"
      by blast
    from X have e: "\<forall>k \<in> set (edge_keys vg).
                k \<in> set (edge_keys G) \<and> (fst k = ''c2'' \<or> snd k = ''c2'')"
      by blast
    have "set (node_keys vg) \<subseteq> {''c1'', ''c2''}"
    proof
      fix k assume "k \<in> set (node_keys vg)"
      with n have "k = ''c2'' \<or> (k, ''c2'') \<in> set (edge_keys G) \<or> (''c2'', k) \<in> set (edge_keys G)"
        by (simp add: hasEdge_def)
      then show "k \<in> {''c1'', ''c2''}"
        unfolding ek by auto
    qed
    moreover have "set (edge_keys vg) \<subseteq> {(''c1'', ''c2'')}"
    proof
      fix k assume "k \<in> set (edge_keys vg)"
      with e have "k \<in> set (edge_keys G)" "fst k = ''c2'' \<or> snd k = ''c2''" by simp_all
      then show "k \<in> {(''c1'', ''c2'')}"
        unfolding ek by auto
    qed
    ultimately show ?thesis using Inr p by simp
  qed
  with wf show ?thesis
    unfolding S_def G_def by simp
qed

end
